theory Spec2Isabelle
  imports Main "HOL-Library.Word"
begin

section \<open>Values shared by the packages\<close>

text \<open>
  A Go \<open>error\<close> value. \<open>Errno\<close> is a \<open>syscall.Errno\<close> (\<open>EINVAL\<close> is 22),
  \<open>ErrorString\<close> is the result of \<open>errors.New\<close>, \<open>NetError\<close> is an error that
  implements \<open>net.Error\<close> (its \<open>Timeout()\<close> answer and its message), and
  \<open>LibError\<close> is any other error produced by a library outside this repository.
\<close>

datatype error =
    Errno nat
  | ErrorString string
  | NetError bool string
  | LibError string

definition EINVAL :: error where
  "EINVAL = Errno 22"

text \<open>
  What a call does when it is run alone: it returns a value, it panics with a message, or
  it blocks (it has not returned and nothing in the calling goroutine will let it).
\<close>

datatype 'a outcome = Returns 'a | Panics string | Blocks

text \<open>
  The Go conversions \<open>uint16(x)\<close> and \<open>uint32(x)\<close> of an \<open>int\<close> keep the low bits;
  \<open>int(w)\<close> of an unsigned value is \<open>uint w\<close>.
\<close>

definition uint16 :: "int \<Rightarrow> 16 word" where
  "uint16 x = word_of_int x"


type_synonym IP = "8 word list"

record IPNet =
  IP :: IP
  Mask :: "8 word list"

section \<open>Bridge: routes and listeners\<close>

record route =
  network :: string
  cidr :: IPNet
  port :: "16 word"

text \<open>
  A buffered Go channel of connections: the queued values, the capacity given to
  \<open>make\<close>, and whether \<open>close\<close> has been called on it.
\<close>

record 'c chan =
  buf :: "'c list"
  cap :: nat
  closed :: bool

text \<open>\<open>listenerChan\<close>: the field \<open>ch\<close> is \<open>None\<close> when it holds the nil channel.\<close>

record 'c listenerChan =
  ch :: "'c chan option"

text \<open>
  The Bridge holds pointers to its listeners. A pointer is the index of the listener in
  the heap of allocated \<open>listenerChan\<close> objects; allocation appends to the heap.
  \<open>inito\<close> records whether the \<open>sync.Once\<close> has fired.
\<close>

record Bridge =
  MaxInFlight :: int
  routes :: "route list"
  listeners :: "nat list"
  inito :: bool

type_synonym 'c heap = "'c listenerChan list"

text \<open>
  \<open>Bridge.init\<close>: the default for \<open>MaxInFlight\<close>. The two forwarders it registers on
  the protocol stack live outside the Bridge record. \<open>initOnce\<close> is \<open>b.inito.Do(b.init)\<close>.
\<close>

definition init :: "Bridge \<Rightarrow> Bridge" where
  "init b = (if MaxInFlight b = 0 then b\<lparr>MaxInFlight := 2 ^ 12\<rparr> else b)"

definition initOnce :: "Bridge \<Rightarrow> Bridge" where
  "initOnce b = (if inito b then b else (init b)\<lparr>inito := True\<rparr>)"

text \<open>
  \<open>newListenerChan\<close> allocates a listener around \<open>make(chan net.Conn, size)\<close>; \<open>make\<close>
  panics on a negative size.
\<close>

definition newListenerChan :: "int \<Rightarrow> 'c heap \<Rightarrow> (nat \<times> 'c heap) outcome" where
  "newListenerChan sz h =
     (if sz < 0 then Panics ''makechan: size out of range''
      else Returns (length h, h @ [\<lparr>ch = Some \<lparr>buf = [], cap = nat sz, closed = False\<rparr>\<rparr>]))"

subsection \<open>matchRoute\<close>

text \<open>
  The loop of \<open>matchRoute\<close> over \<open>b.routes\<close>, with the index \<open>i\<close> of the route under
  inspection. \<open>contains\<close> is \<open>net.IPNet.Contains\<close>. Reading \<open>b.listeners[i]\<close> out of
  range is a run-time panic. The pair \<open>(nil, false)\<close> is \<open>None\<close>.
\<close>

fun matchRoute_loop ::
  "(IPNet \<Rightarrow> IP \<Rightarrow> bool) \<Rightarrow> route list \<Rightarrow> nat list \<Rightarrow> nat \<Rightarrow> string \<Rightarrow> IP \<Rightarrow> int \<Rightarrow> nat option outcome"
where
  "matchRoute_loop contains [] ls i nw ip p = Returns None"
| "matchRoute_loop contains (r # rs) ls i nw ip p =
     (if network r \<noteq> nw then matchRoute_loop contains rs ls (Suc i) nw ip p
      else if \<not> contains (cidr r) ip then matchRoute_loop contains rs ls (Suc i) nw ip p
      else if port r \<noteq> 0 \<and> uint (port r) \<noteq> p then matchRoute_loop contains rs ls (Suc i) nw ip p
      else if i < length ls then Returns (Some (ls ! i))
      else Panics ''index out of range'')"

definition matchRoute ::
  "(IPNet \<Rightarrow> IP \<Rightarrow> bool) \<Rightarrow> Bridge \<Rightarrow> string \<Rightarrow> IP \<Rightarrow> int \<Rightarrow> nat option outcome"
where
  "matchRoute contains b nw ip p = matchRoute_loop contains (routes b) (listeners b) 0 nw ip p"

text \<open>The matching condition in the words of the specification.\<close>

definition route_matches :: "(IPNet \<Rightarrow> IP \<Rightarrow> bool) \<Rightarrow> route \<Rightarrow> string \<Rightarrow> IP \<Rightarrow> int \<Rightarrow> bool" where
  "route_matches contains r nw ip p \<longleftrightarrow>
     nw = network r \<and> contains (cidr r) ip \<and> (port r = 0 \<or> uint (port r) = p)"

subsection \<open>parseNetworkAddress and Listen\<close>

text \<open>
  \<open>strings.Split(s, sep)\<close> for a separator of one character: the pieces of \<open>s\<close>
  between the occurrences of the separator, one more piece than occurrences.
\<close>

fun Split :: "string \<Rightarrow> char \<Rightarrow> string list" where
  "Split [] c = [[]]"
| "Split (x # xs) c =
     (if x = c then [] # Split xs c
      else (case Split xs c of [] \<Rightarrow> [[x]] | w # ws \<Rightarrow> (x # w) # ws))"

text \<open>\<open>strings.Join(ts, sep)\<close> for a separator of one character.\<close>

fun Join :: "string list \<Rightarrow> char \<Rightarrow> string" where
  "Join [] c = []"
| "Join [t] c = t"
| "Join (t # u # ts) c = t @ c # Join (u # ts) c"

text \<open>
  \<open>parseNetworkAddress\<close>. The three library calls are parameters:
  \<open>splitHostPort\<close> is \<open>net.SplitHostPort\<close>, \<open>parseCIDR\<close> is the network returned by
  \<open>net.ParseCIDR\<close>, and \<open>atoi\<close> is \<open>strconv.Atoi\<close>.
\<close>

definition parseNetworkAddress ::
  "(string \<Rightarrow> error + string \<times> string) \<Rightarrow> (string \<Rightarrow> error + IPNet) \<Rightarrow> (string \<Rightarrow> error + int) \<Rightarrow>
   string \<Rightarrow> string \<Rightarrow> error + string list \<times> IPNet \<times> 16 word"
where
  "parseNetworkAddress splitHostPort parseCIDR atoi nw address =
     (let networks = Split nw (CHR ''+'') in
      case splitHostPort address of
        Inl err \<Rightarrow> Inl err
      | Inr (host, portstr) \<Rightarrow>
          (case parseCIDR host of
             Inl err \<Rightarrow> Inl err
           | Inr ipnet \<Rightarrow>
               (case atoi portstr of
                  Inl err \<Rightarrow> Inl err
                | Inr portnum \<Rightarrow>
                    if uint (uint16 portnum) \<noteq> portnum then Inl (ErrorString ''invalid port number'')
                    else Inr (networks, ipnet, uint16 portnum))))"

text \<open>The loop of \<open>Listen\<close> that appends one route and one listener per network.\<close>

fun Listen_append :: "string list \<Rightarrow> IPNet \<Rightarrow> 16 word \<Rightarrow> nat \<Rightarrow> Bridge \<Rightarrow> Bridge" where
  "Listen_append [] ipnet portnum ln b = b"
| "Listen_append (nw # nws) ipnet portnum ln b =
     Listen_append nws ipnet portnum ln
       (b\<lparr>routes := routes b @ [\<lparr>network = nw, cidr = ipnet, port = portnum\<rparr>],
          listeners := listeners b @ [ln]\<rparr>)"

text \<open>
  \<open>Bridge.Listen\<close> returns the listener (or the error), the updated Bridge and the
  updated heap.
\<close>

definition Listen ::
  "(string \<Rightarrow> error + string \<times> string) \<Rightarrow> (string \<Rightarrow> error + IPNet) \<Rightarrow> (string \<Rightarrow> error + int) \<Rightarrow>
   Bridge \<Rightarrow> 'c heap \<Rightarrow> string \<Rightarrow> string \<Rightarrow> ((error + nat) \<times> Bridge \<times> 'c heap) outcome"
where
  "Listen splitHostPort parseCIDR atoi b h nw address =
     (let b1 = initOnce b in
      case parseNetworkAddress splitHostPort parseCIDR atoi nw address of
        Inl err \<Rightarrow> Returns (Inl err, b1, h)
      | Inr (networks, ipnet, portnum) \<Rightarrow>
          (case newListenerChan (MaxInFlight b1) h of
             Panics m \<Rightarrow> Panics m
           | Blocks \<Rightarrow> Blocks
           | Returns (ln, h') \<Rightarrow> Returns (Inr ln, Listen_append networks ipnet portnum ln b1, h')))"

text \<open>
  The Bridges that calls of \<open>Listen\<close> build: a Bridge starts without routes and
  listeners, and every returning call of \<open>Listen\<close> leads from one such Bridge to the next.
\<close>

inductive listen_built ::
  "(string \<Rightarrow> error + string \<times> string) \<Rightarrow> (string \<Rightarrow> error + IPNet) \<Rightarrow> (string \<Rightarrow> error + int) \<Rightarrow>
   Bridge \<Rightarrow> bool"
  for splitHostPort parseCIDR atoi
where
  fresh: "routes b = [] \<Longrightarrow> listeners b = [] \<Longrightarrow> listen_built splitHostPort parseCIDR atoi b"
| listen: "listen_built splitHostPort parseCIDR atoi b \<Longrightarrow>
     Listen splitHostPort parseCIDR atoi b (h :: unit heap) nw address = Returns (r, b', h') \<Longrightarrow>
     listen_built splitHostPort parseCIDR atoi b'"

subsection \<open>The library calls at the addresses of the tests\<close>

text \<open>
  The theorems below hold for every \<open>net.SplitHostPort\<close>, \<open>net.ParseCIDR\<close>,
  \<open>strconv.Atoi\<close> and \<open>net.IPNet.Contains\<close>. To run the model on the calls made by
  \<open>bridge_test.go\<close> and \<open>nat_test.go\<close>, the next definitions give the answers of the
  first three at the strings used there (any other string is answered by an error here),
  and \<open>Contains\<close> for a network and an address of four bytes each.
\<close>

definition test_SplitHostPort :: "string \<Rightarrow> error + string \<times> string" where
  "test_SplitHostPort s =
     (if s = ''192.168.1.40/29:128'' then Inr (''192.168.1.40/29'', ''128'')
      else if s = ''0.0.0.0/0:0'' then Inr (''0.0.0.0/0'', ''0'')
      else if s = ''0.0.0.0/0:65536'' then Inr (''0.0.0.0/0'', ''65536'')
      else Inl (LibError ''missing port in address''))"

definition test_ParseCIDR :: "string \<Rightarrow> error + IPNet" where
  "test_ParseCIDR s =
     (if s = ''192.168.1.40/29'' then Inr \<lparr>IP = [192, 168, 1, 40], Mask = [255, 255, 255, 248]\<rparr>
      else if s = ''0.0.0.0/0'' then Inr \<lparr>IP = [0, 0, 0, 0], Mask = [0, 0, 0, 0]\<rparr>
      else Inl (LibError ''invalid CIDR address''))"

definition test_Atoi :: "string \<Rightarrow> error + int" where
  "test_Atoi s =
     (if s = ''128'' then Inr 128
      else if s = ''0'' then Inr 0
      else if s = ''65536'' then Inr 65536
      else Inl (LibError ''invalid syntax''))"

definition Contains4 :: "IPNet \<Rightarrow> IP \<Rightarrow> bool" where
  "Contains4 n ip \<longleftrightarrow>
     length ip = 4 \<and> length (IP n) = 4 \<and> length (Mask n) = 4 \<and>
     map2 (\<lambda>a m. and a m) (IP n) (Mask n) = map2 (\<lambda>a m. and a m) ip (Mask n)"

text \<open>A Bridge as the tests create it: \<open>&Bridge{Network: network}\<close>.\<close>

definition newBridge :: Bridge where
  "newBridge = \<lparr>MaxInFlight = 0, routes = [], listeners = [], inito = False\<rparr>"

text \<open>
  The Bridge of \<open>nat_test.go\<close> after \<open>Listen("tcp+udp", "0.0.0.0/0:0")\<close>, and the same
  Bridge after a further \<open>Listen("tcp", "192.168.1.40/29:128")\<close> as in \<open>bridge_test.go\<close>.
\<close>

definition bridge1 :: Bridge where
  "bridge1 = \<lparr>MaxInFlight = 4096,
     routes = [\<lparr>network = ''tcp'', cidr = \<lparr>IP = [0, 0, 0, 0], Mask = [0, 0, 0, 0]\<rparr>, port = 0\<rparr>,
               \<lparr>network = ''udp'', cidr = \<lparr>IP = [0, 0, 0, 0], Mask = [0, 0, 0, 0]\<rparr>, port = 0\<rparr>],
     listeners = [0, 0], inito = True\<rparr>"

definition bridge2 :: Bridge where
  "bridge2 = \<lparr>MaxInFlight = 4096,
     routes = [\<lparr>network = ''tcp'', cidr = \<lparr>IP = [0, 0, 0, 0], Mask = [0, 0, 0, 0]\<rparr>, port = 0\<rparr>,
               \<lparr>network = ''udp'', cidr = \<lparr>IP = [0, 0, 0, 0], Mask = [0, 0, 0, 0]\<rparr>, port = 0\<rparr>,
               \<lparr>network = ''tcp'', cidr = \<lparr>IP = [192, 168, 1, 40], Mask = [255, 255, 255, 248]\<rparr>, port = 128\<rparr>],
     listeners = [0, 0, 1], inito = True\<rparr>"

definition heap1 :: "unit heap" where
  "heap1 = [\<lparr>ch = Some \<lparr>buf = [], cap = 4096, closed = False\<rparr>\<rparr>]"

definition heap2 :: "unit heap" where
  "heap2 = [\<lparr>ch = Some \<lparr>buf = [], cap = 4096, closed = False\<rparr>\<rparr>,
            \<lparr>ch = Some \<lparr>buf = [], cap = 4096, closed = False\<rparr>\<rparr>]"

subsection \<open>Dial\<close>

text \<open>
  A non-nil \<open>net.Addr\<close>: a \<open>*net.UDPAddr\<close> or a \<open>*net.TCPAddr\<close> with the fields
  \<open>IP\<close>, \<open>Port\<close> and \<open>Zone\<close>, or another implementation of the interface, given by
  what its \<open>Network()\<close> and \<open>String()\<close> methods return. \<open>addrNetwork\<close> is the method \<open>Network()\<close>: \<open>"udp"\<close> for a \<open>*net.UDPAddr\<close>
  and \<open>"tcp"\<close> for a \<open>*net.TCPAddr\<close>.
\<close>

datatype Addr =
    UDPAddr IP int string
  | TCPAddr IP int string
  | OtherAddr string string

fun addrNetwork :: "Addr \<Rightarrow> string" where
  "addrNetwork (UDPAddr ip p z) = ''udp''"
| "addrNetwork (TCPAddr ip p z) = ''tcp''"
| "addrNetwork (OtherAddr nw s) = nw"

fun Port :: "Addr \<Rightarrow> int option" where
  "Port (UDPAddr ip p z) = Some p"
| "Port (TCPAddr ip p z) = Some p"
| "Port (OtherAddr nw s) = None"

text \<open>
  \<open>Bridge.Dial\<close>. The methods \<open>dialUDP\<close> and \<open>dialTCP\<close> drive the protocol stack
  and are parameters here. The type assertions \<open>laddr.(*net.UDPAddr)\<close> and
  \<open>laddr.(*net.TCPAddr)\<close> panic on an address of another type; the arguments of the call
  are evaluated from left to right.
\<close>

definition Dial ::
  "(Addr \<Rightarrow> Addr \<Rightarrow> error + 'conn) \<Rightarrow> ('ctx \<Rightarrow> Addr \<Rightarrow> Addr \<Rightarrow> error + 'conn) \<Rightarrow>
   Bridge \<Rightarrow> 'ctx \<Rightarrow> Addr \<Rightarrow> Addr \<Rightarrow> ((error + 'conn) \<times> Bridge) outcome"
where
  "Dial dialUDP dialTCP b ctx laddr raddr =
     (let b1 = initOnce b in
      if addrNetwork laddr \<noteq> addrNetwork raddr
      then Returns (Inl (ErrorString ''dial: network mismatch''), b1)
      else if addrNetwork laddr = ''udp'' \<or> addrNetwork laddr = ''udp4'' then
        (case laddr of
           UDPAddr lip lp lz \<Rightarrow>
             (case raddr of
                UDPAddr rip rp rz \<Rightarrow> Returns (dialUDP laddr raddr, b1)
              | _ \<Rightarrow> Panics ''interface conversion: net.Addr is not *net.UDPAddr'')
         | _ \<Rightarrow> Panics ''interface conversion: net.Addr is not *net.UDPAddr'')
      else if addrNetwork laddr = ''tcp'' \<or> addrNetwork laddr = ''tcp4'' then
        (case laddr of
           TCPAddr lip lp lz \<Rightarrow>
             (case raddr of
                TCPAddr rip rp rz \<Rightarrow> Returns (dialTCP ctx laddr raddr, b1)
              | _ \<Rightarrow> Panics ''interface conversion: net.Addr is not *net.TCPAddr'')
         | _ \<Rightarrow> Panics ''interface conversion: net.Addr is not *net.TCPAddr'')
      else Returns (Inl (ErrorString ''dial: unknown network''), b1))"

section \<open>Forwarder\<close>

text \<open>
  The fields of a \<open>Forwarder\<close> apart from its pointer to the Bridge, which the functions
  below take as an argument. \<open>Timeout\<close> is a \<open>time.Duration\<close>, a number of nanoseconds.
\<close>

record Forwarder =
  RemoteAddr :: Addr
  Timeout :: int
  ReusePort :: bool

text \<open>
  \<open>resolveAddr\<close>. \<open>resolveUDP\<close> and \<open>resolveTCP\<close> are \<open>net.ResolveUDPAddr\<close> and
  \<open>net.ResolveTCPAddr\<close>; each answers with an error or with the \<open>IP\<close>, \<open>Port\<close> and
  \<open>Zone\<close> of the address it allocates.
\<close>

definition resolveAddr ::
  "(string \<Rightarrow> string \<Rightarrow> error + IP \<times> int \<times> string) \<Rightarrow>
   (string \<Rightarrow> string \<Rightarrow> error + IP \<times> int \<times> string) \<Rightarrow>
   Forwarder \<Rightarrow> string \<Rightarrow> string \<Rightarrow> error + Addr"
where
  "resolveAddr resolveUDP resolveTCP f nw address =
     (if nw = ''udp'' \<or> nw = ''udp4'' then
        (case resolveUDP nw address of
           Inl err \<Rightarrow> Inl err
         | Inr (ip, p, z) \<Rightarrow> Inr (UDPAddr ip (if \<not> ReusePort f then 0 else p) z))
      else if nw = ''tcp'' \<or> nw = ''tcp4'' then
        (case resolveTCP nw address of
           Inl err \<Rightarrow> Inl err
         | Inr (ip, p, z) \<Rightarrow> Inr (TCPAddr ip (if \<not> ReusePort f then 0 else p) z))
      else Inl (ErrorString ''forward: unknown network''))"

text \<open>
  \<open>Forward\<close>. \<open>withTimeout\<close> is \<open>context.WithTimeout\<close>; the deferred \<open>cancel\<close>
  releases the timer and has no part in the result.
\<close>

definition Forward ::
  "(string \<Rightarrow> string \<Rightarrow> error + IP \<times> int \<times> string) \<Rightarrow>
   (string \<Rightarrow> string \<Rightarrow> error + IP \<times> int \<times> string) \<Rightarrow>
   ('ctx \<Rightarrow> int \<Rightarrow> 'ctx) \<Rightarrow>
   (Addr \<Rightarrow> Addr \<Rightarrow> error + 'conn) \<Rightarrow> ('ctx \<Rightarrow> Addr \<Rightarrow> Addr \<Rightarrow> error + 'conn) \<Rightarrow>
   Forwarder \<Rightarrow> Bridge \<Rightarrow> 'ctx \<Rightarrow> string \<Rightarrow> string \<Rightarrow> ((error + 'conn) \<times> Bridge) outcome"
where
  "Forward resolveUDP resolveTCP withTimeout dialUDP dialTCP f b ctx nw address =
     (let ctx1 = (if Timeout f \<noteq> 0 then withTimeout ctx (Timeout f) else ctx) in
      case resolveAddr resolveUDP resolveTCP f nw address of
        Inl err \<Rightarrow> Returns (Inl err, b)
      | Inr localAddr \<Rightarrow> Dial dialUDP dialTCP b ctx1 localAddr (RemoteAddr f))"

text \<open>
  The answers of \<open>net.ResolveUDPAddr\<close> and \<open>net.ResolveTCPAddr\<close> at the addresses
  \<open>forwarder_test.go\<close> passes to \<open>Forward\<close> (any other string is answered by an error
  here).
\<close>

definition test_Resolve :: "string \<Rightarrow> string \<Rightarrow> error + IP \<times> int \<times> string" where
  "test_Resolve nw s =
     (if s = ''4.3.2.1:8765'' then Inr ([4, 3, 2, 1], 8765, '''')
      else if s = ''1.2.3.4:5678'' then Inr ([1, 2, 3, 4], 5678, '''')
      else Inl (LibError ''missing port in address''))"

subsection \<open>listenerChan\<close>

text \<open>
  The three methods of \<open>listenerChan\<close>, each run alone on a listener \<open>l\<close>; the listener
  holds the only reference to its channel, so the channel is kept inside the record.
  A receive takes the oldest queued value, reports \<open>!ok\<close> on an empty closed channel and
  blocks on an empty open one; a send blocks when the buffer is full and panics on a closed
  channel; \<open>close\<close> panics on the nil channel and on a closed channel.
\<close>

definition Accept :: "'c listenerChan \<Rightarrow> ((error + 'c) \<times> 'c listenerChan) outcome" where
  "Accept l =
     (case ch l of
        None \<Rightarrow> Returns (Inl EINVAL, l)
      | Some c \<Rightarrow>
          (case buf c of
             x # xs \<Rightarrow> Returns (Inr x, l\<lparr>ch := Some (c\<lparr>buf := xs\<rparr>)\<rparr>)
           | [] \<Rightarrow> if closed c then Returns (Inl EINVAL, l) else Blocks))"

definition Close :: "'c listenerChan \<Rightarrow> (error option \<times> 'c listenerChan) outcome" where
  "Close l =
     (case ch l of
        None \<Rightarrow> Panics ''close of nil channel''
      | Some c \<Rightarrow>
          if closed c then Panics ''close of closed channel''
          else Returns (None, l\<lparr>ch := None\<rparr>))"

definition send :: "'c listenerChan \<Rightarrow> 'c \<Rightarrow> 'c listenerChan outcome" where
  "send l conn =
     (case ch l of
        None \<Rightarrow> Returns l
      | Some c \<Rightarrow>
          if closed c then Panics ''send on closed channel''
          else if length (buf c) < cap c then Returns (l\<lparr>ch := Some (c\<lparr>buf := buf c @ [conn]\<rparr>)\<rparr>)
          else Blocks)"

section \<open>Network\<close>


definition networks :: "string list" where
  "networks = [''ipv4'']"








section \<open>NAT\<close>

text \<open>
  The type assertion \<open>err.(net.Error)\<close> followed by \<open>Timeout()\<close>: \<open>None\<close> when the
  error does not implement \<open>net.Error\<close>. A \<open>syscall.Errno\<close> implements it and reports a
  timeout for \<open>EAGAIN\<close> (11) and \<open>ETIMEDOUT\<close> (110).
\<close>

fun netErrorTimeout :: "error \<Rightarrow> bool option" where
  "netErrorTimeout (NetError t msg) = Some t"
| "netErrorTimeout (Errno e) = Some (e = 11 \<or> e = 110)"
| "netErrorTimeout (ErrorString msg) = None"
| "netErrorTimeout (LibError msg) = None"

text \<open>What a call of \<open>forward\<close> does to its connections, in order.\<close>

datatype 'c event = Closed 'c | Spliced 'c 'c

text \<open>
  \<open>NAT.forward\<close>. \<open>EgressDial\<close> is the field of the \<open>NAT\<close>, \<open>LocalAddr\<close> the method of
  the client connection, and \<open>proxy\<close> the splice of the two connections with the error it
  reports. The result is the list of events and the way the call ends.
\<close>

definition forward ::
  "(Addr \<Rightarrow> error + 'c) \<Rightarrow> ('c \<Rightarrow> Addr) \<Rightarrow> ('c \<Rightarrow> 'c \<Rightarrow> error option) \<Rightarrow> (error \<Rightarrow> string) \<Rightarrow>
   'c \<Rightarrow> 'c event list \<times> unit outcome"
where
  "forward EgressDial LocalAddr proxy errorText client =
     (case EgressDial (LocalAddr client) of
        Inl err \<Rightarrow>
          (case netErrorTimeout err of
             Some True \<Rightarrow> ([], Returns ())
           | _ \<Rightarrow> ([Closed client], Returns ()))
      | Inr server \<Rightarrow>
          (case proxy client server of
             Some err \<Rightarrow> ([Spliced client server],
                          Panics (''TODO: figure out how to handle: '' @ errorText err))
           | None \<Rightarrow> ([Spliced client server], Returns ())))"

text \<open>
  \<open>NAT.Run\<close> against a listener whose calls of \<open>Accept\<close> answer with the given list, one
  entry per call, and block once the list is used up. The result is what \<open>Run\<close> returns
  and, for every goroutine it started, the result of that call of \<open>forward\<close>.
\<close>

fun Run ::
  "(Addr \<Rightarrow> error + 'c) \<Rightarrow> ('c \<Rightarrow> Addr) \<Rightarrow> ('c \<Rightarrow> 'c \<Rightarrow> error option) \<Rightarrow> (error \<Rightarrow> string) \<Rightarrow>
   (error + 'c) list \<Rightarrow> error outcome \<times> ('c event list \<times> unit outcome) list"
where
  "Run EgressDial LocalAddr proxy errorText [] = (Blocks, [])"
| "Run EgressDial LocalAddr proxy errorText (Inl err # accepts) = (Returns err, [])"
| "Run EgressDial LocalAddr proxy errorText (Inr conn # accepts) =
     (let (r, gs) = Run EgressDial LocalAddr proxy errorText accepts
      in (r, forward EgressDial LocalAddr proxy errorText conn # gs))"

text \<open>The connections that \<open>Run\<close> accepts: those answered before the first error.\<close>

fun accepted :: "(error + 'c) list \<Rightarrow> 'c list" where
  "accepted [] = []"
| "accepted (Inl err # accepts) = []"
| "accepted (Inr conn # accepts) = conn # accepted accepts"

section \<open>Monitor: parsing the socket tables\<close>

text \<open>
  \<open>encoding/hex\<close>: the value of a hexadecimal digit of either case, and \<open>hex.Decode\<close>
  writing the byte of every pair of digits into \<open>dst\<close> from index \<open>i\<close> on. A write
  beyond the end of \<open>dst\<close> is a run-time panic; a character that is no digit and a
  trailing single digit are errors. The result is \<open>dst\<close> and the number of bytes written.
\<close>

definition fromHexChar :: "char \<Rightarrow> 8 word option" where
  "fromHexChar c =
     (let n = (of_char c :: nat) in
      if 48 \<le> n \<and> n \<le> 57 then Some (of_nat (n - 48))
      else if 97 \<le> n \<and> n \<le> 102 then Some (of_nat (n - 97 + 10))
      else if 65 \<le> n \<and> n \<le> 70 then Some (of_nat (n - 65 + 10))
      else None)"

fun Decode :: "8 word list \<Rightarrow> nat \<Rightarrow> string \<Rightarrow> (error + 8 word list \<times> nat) outcome" where
  "Decode dst i [] = Returns (Inr (dst, i))"
| "Decode dst i [p] =
     (case fromHexChar p of
        None \<Rightarrow> Returns (Inl (LibError ''encoding/hex: invalid byte''))
      | Some a \<Rightarrow> Returns (Inl (LibError ''encoding/hex: odd length hex string'')))"
| "Decode dst i (p # q # src) =
     (case fromHexChar p of
        None \<Rightarrow> Returns (Inl (LibError ''encoding/hex: invalid byte''))
      | Some a \<Rightarrow>
          (case fromHexChar q of
             None \<Rightarrow> Returns (Inl (LibError ''encoding/hex: invalid byte''))
           | Some b \<Rightarrow>
               if i < length dst then Decode (dst[i := or (push_bit 4 a) b]) (Suc i) src
               else Panics ''index out of range''))"

text \<open>
  \<open>hex.DecodeString\<close> decodes into a buffer as long as the string and returns the bytes
  written.
\<close>

definition DecodeString :: "string \<Rightarrow> (error + 8 word list) outcome" where
  "DecodeString s =
     (case Decode (replicate (length s) 0) 0 s of
        Returns (Inr (dst, n)) \<Rightarrow> Returns (Inr (take n dst))
      | Returns (Inl err) \<Rightarrow> Returns (Inl err)
      | Panics m \<Rightarrow> Panics m
      | Blocks \<Rightarrow> Blocks)"

text \<open>\<open>binary.BigEndian.Uint16\<close> of a buffer of two bytes.\<close>

definition BigEndian_Uint16 :: "8 word list \<Rightarrow> 16 word" where
  "BigEndian_Uint16 b = or (ucast (b ! 1)) (push_bit 8 (ucast (b ! 0)))"

text \<open>
  The loop of \<open>parseHexAddr\<close>, from the index \<open>i\<close> down to 0: the assignment
  \<open>ip[i], ip[opp] = addr[opp], addr[i]\<close> with \<open>opp = len(addr) - 1 - i\<close>. An index
  outside the slices is a run-time panic.
\<close>

fun swap_loop :: "8 word list \<Rightarrow> nat \<Rightarrow> 8 word list \<Rightarrow> 8 word list outcome" where
  "swap_loop addr i ip =
     (let opp = int (length addr) - 1 - int i in
      if opp < 0 \<or> int (length addr) \<le> opp \<or> length addr \<le> i \<or>
         int (length ip) \<le> opp \<or> length ip \<le> i
      then Panics ''index out of range''
      else
        (let ip' = ip[i := addr ! nat opp, nat opp := addr ! i] in
         case i of 0 \<Rightarrow> Returns ip' | Suc k \<Rightarrow> swap_loop addr k ip'))"

declare swap_loop.simps [simp del]

text \<open>
  \<open>parseHexAddr\<close>. Reading \<open>parts[1]\<close> of a value without a colon is a run-time panic.
\<close>

definition parseHexAddr :: "string \<Rightarrow> (error + IP \<times> int) outcome" where
  "parseHexAddr val =
     (let parts = Split val (CHR '':'') in
      if length parts < 2 then Panics ''index out of range''
      else
        (let address = parts ! 0; portnum = parts ! 1 in
         case DecodeString address of
           Panics m \<Rightarrow> Panics m
         | Blocks \<Rightarrow> Blocks
         | Returns (Inl err) \<Rightarrow> Returns (Inl err)
         | Returns (Inr addr) \<Rightarrow>
             (case swap_loop addr (length addr div 2) (replicate (length addr) 0) of
                Panics m \<Rightarrow> Panics m
              | Blocks \<Rightarrow> Blocks
              | Returns ip \<Rightarrow>
                  (case Decode [0, 0] 0 portnum of
                     Panics m \<Rightarrow> Panics m
                   | Blocks \<Rightarrow> Blocks
                   | Returns (Inl err) \<Rightarrow> Returns (Inl err)
                   | Returns (Inr (pbuf, n)) \<Rightarrow> Returns (Inr (ip, uint (BigEndian_Uint16 pbuf)))))))"

text \<open>
  The decoding in the words of the specification: every aligned word of four bytes is
  reversed and the words keep their order.
\<close>

fun reverse_words :: "8 word list \<Rightarrow> 8 word list" where
  "reverse_words (a # b # c # d # rest) = d # c # b # a # reverse_words rest"
| "reverse_words rest = rest"

section \<open>Supervisor Group\<close>

text \<open>
  The functions an actor is started with are described by what \<open>execute\<close> does:
  \<open>Fails e\<close> returns the non-nil error \<open>e\<close> of its own accord, \<open>Task\<close> returns nil
  of its own accord, and \<open>Service r\<close> returns \<open>r\<close> (\<open>None\<close> for nil) once its
  interrupt function has been invoked and not before. Interrupt functions return.
\<close>

datatype kind = Fails error | Task | Service "error option"

text \<open>
  The goroutine \<open>actor.run\<close>: \<open>execute\<close> is running; \<open>execute\<close> has returned and
  a non-nil error has been offered to \<open>errc\<close> by the non-blocking send; the deferred
  \<open>close(a.donec)\<close> has been made.
\<close>

datatype phase = Running | Sent | Exited

record actor =
  kind :: kind
  phase :: phase
  interrupted :: bool

text \<open>
  The goroutine that calls \<open>Start\<close> for each actor of a list and, once every \<open>Start\<close>
  has returned nil, \<open>Run\<close>; it stops when a \<open>Start\<close> returns an error.
  \<open>Starting ks\<close>: before the \<open>select\<close> of the next \<open>Start\<close>, for the actors \<open>ks\<close>
  still to be started, or before \<open>Run\<close> when none is left.
  \<open>RunLoop i\<close>: before the \<open>select\<close> of \<open>Run\<close> for the actor \<open>i\<close>, or before its
  last \<open>select\<close> when \<open>i\<close> is the number of actors.
  \<open>Interrupting j e c\<close>: in \<open>g.interrupt(e)\<close>, called from \<open>c\<close>, with the actors below
  \<open>j\<close> left to interrupt. \<open>Waiting j e c\<close>: the interrupt function of actor \<open>j\<close> has
  returned and \<open><-a.donec\<close> is pending.
\<close>

datatype caller = FromStart | FromRun

datatype pc =
    Starting "kind list"
  | RunLoop nat
  | Interrupting nat error caller
  | Waiting nat error caller
  | StartReturned error
  | RunReturned "error option"

datatype signal = Interrupt nat error | Joined nat

text \<open>
  The Group and its goroutines: \<open>g.actors\<close> in the order of the \<open>Start\<close> calls, the
  buffer of the channel \<open>g.errc\<close> of capacity 1, the position of the calling goroutine, and
  the interrupt functions invoked and the waits on \<open>donec\<close> completed so far.
\<close>

record group =
  actors :: "actor list"
  errc :: "error option"
  pc :: pc
  trace :: "signal list"

fun returns :: "kind \<Rightarrow> error option" where
  "returns (Fails e) = Some e"
| "returns Task = None"
| "returns (Service r) = r"

fun can_return :: "actor \<Rightarrow> bool" where
  "can_return a = (case kind a of Service r \<Rightarrow> interrupted a | _ \<Rightarrow> True)"

text \<open>
  The end of \<open>actor.run\<close>: a non-nil error is sent to \<open>errc\<close> if the buffer is empty
  and dropped otherwise.
\<close>

fun deliver :: "error option \<Rightarrow> error option \<Rightarrow> error option" where
  "deliver None c = c"
| "deliver (Some e) None = Some e"
| "deliver (Some e) (Some e') = Some e'"

text \<open>
  One atomic step of one goroutine. \<open>finish\<close> and \<open>close\<close> belong to \<open>actor.run\<close>;
  \<open>start_err\<close> and \<open>start_ok\<close> are the two branches of the \<open>select\<close> in \<open>Start\<close>;
  \<open>run_err\<close> and \<open>run_done\<close> the two cases of the \<open>select\<close> in the loop of \<open>Run\<close>,
  either of which may be taken when both are ready; \<open>run_last\<close> the \<open>select\<close> after the
  loop; \<open>int_call\<close>, \<open>int_wait\<close> and \<open>int_ret\<close> belong to \<open>Group.interrupt\<close>.
\<close>

inductive step :: "group \<Rightarrow> group \<Rightarrow> bool" where
  finish: "i < length (actors s) \<Longrightarrow> phase (actors s ! i) = Running \<Longrightarrow> can_return (actors s ! i) \<Longrightarrow>
     step s (s\<lparr>actors := (actors s)[i := (actors s ! i)\<lparr>phase := Sent\<rparr>],
              errc := deliver (returns (kind (actors s ! i))) (errc s)\<rparr>)"
| close: "i < length (actors s) \<Longrightarrow> phase (actors s ! i) = Sent \<Longrightarrow>
     step s (s\<lparr>actors := (actors s)[i := (actors s ! i)\<lparr>phase := Exited\<rparr>]\<rparr>)"
| start_err: "pc s = Starting (k # ks) \<Longrightarrow> errc s = Some e \<Longrightarrow>
     step s (s\<lparr>errc := None, pc := Interrupting (length (actors s)) e FromStart\<rparr>)"
| start_ok: "pc s = Starting (k # ks) \<Longrightarrow> errc s = None \<Longrightarrow>
     step s (s\<lparr>actors := actors s @ [\<lparr>kind = k, phase = Running, interrupted = False\<rparr>],
              pc := Starting ks\<rparr>)"
| run_enter: "pc s = Starting [] \<Longrightarrow> step s (s\<lparr>pc := RunLoop 0\<rparr>)"
| run_err: "pc s = RunLoop i \<Longrightarrow> i < length (actors s) \<Longrightarrow> errc s = Some e \<Longrightarrow>
     step s (s\<lparr>errc := None, pc := Interrupting (length (actors s)) e FromRun\<rparr>)"
| run_done: "pc s = RunLoop i \<Longrightarrow> i < length (actors s) \<Longrightarrow> phase (actors s ! i) = Exited \<Longrightarrow>
     step s (s\<lparr>pc := RunLoop (Suc i)\<rparr>)"
| run_last: "pc s = RunLoop (length (actors s)) \<Longrightarrow>
     step s (s\<lparr>errc := None, pc := RunReturned (errc s)\<rparr>)"
| int_call: "pc s = Interrupting (Suc j) e c \<Longrightarrow>
     step s (s\<lparr>actors := (actors s)[j := (actors s ! j)\<lparr>interrupted := True\<rparr>],
              trace := trace s @ [Interrupt j e], pc := Waiting j e c\<rparr>)"
| int_wait: "pc s = Waiting j e c \<Longrightarrow> j < length (actors s) \<Longrightarrow> phase (actors s ! j) = Exited \<Longrightarrow>
     step s (s\<lparr>trace := trace s @ [Joined j], pc := Interrupting j e c\<rparr>)"
| int_ret: "pc s = Interrupting 0 e c \<Longrightarrow>
     step s (s\<lparr>pc := (case c of FromStart \<Rightarrow> StartReturned e | FromRun \<Rightarrow> RunReturned (Some e))\<rparr>)"

text \<open>
  The same steps as a function: the Groups that one step leads to, those of the actors
  first (in the order of the actors) and those of the calling goroutine after them.
\<close>

definition actor_moves :: "group \<Rightarrow> nat \<Rightarrow> group list" where
  "actor_moves s i =
     (if phase (actors s ! i) = Running \<and> can_return (actors s ! i)
      then [s\<lparr>actors := (actors s)[i := (actors s ! i)\<lparr>phase := Sent\<rparr>],
              errc := deliver (returns (kind (actors s ! i))) (errc s)\<rparr>]
      else []) @
     (if phase (actors s ! i) = Sent
      then [s\<lparr>actors := (actors s)[i := (actors s ! i)\<lparr>phase := Exited\<rparr>]\<rparr>]
      else [])"

fun caller_moves :: "group \<Rightarrow> pc \<Rightarrow> group list" where
  "caller_moves s (Starting []) = [s\<lparr>pc := RunLoop 0\<rparr>]"
| "caller_moves s (Starting (k # ks)) =
     (case errc s of
        Some e \<Rightarrow> [s\<lparr>errc := None, pc := Interrupting (length (actors s)) e FromStart\<rparr>]
      | None \<Rightarrow> [s\<lparr>actors := actors s @ [\<lparr>kind = k, phase = Running, interrupted = False\<rparr>],
                   pc := Starting ks\<rparr>])"
| "caller_moves s (RunLoop i) =
     (if i < length (actors s) then
        (case errc s of
           Some e \<Rightarrow> [s\<lparr>errc := None, pc := Interrupting (length (actors s)) e FromRun\<rparr>]
         | None \<Rightarrow> []) @
        (if phase (actors s ! i) = Exited then [s\<lparr>pc := RunLoop (Suc i)\<rparr>] else [])
      else if i = length (actors s) then [s\<lparr>errc := None, pc := RunReturned (errc s)\<rparr>]
      else [])"
| "caller_moves s (Interrupting 0 e c) =
     [s\<lparr>pc := (case c of FromStart \<Rightarrow> StartReturned e | FromRun \<Rightarrow> RunReturned (Some e))\<rparr>]"
| "caller_moves s (Interrupting (Suc j) e c) =
     [s\<lparr>actors := (actors s)[j := (actors s ! j)\<lparr>interrupted := True\<rparr>],
        trace := trace s @ [Interrupt j e], pc := Waiting j e c\<rparr>]"
| "caller_moves s (Waiting j e c) =
     (if j < length (actors s) \<and> phase (actors s ! j) = Exited
      then [s\<lparr>trace := trace s @ [Joined j], pc := Interrupting j e c\<rparr>]
      else [])"
| "caller_moves s (StartReturned e) = []"
| "caller_moves s (RunReturned r) = []"

definition successors :: "group \<Rightarrow> group list" where
  "successors s = concat (map (actor_moves s) [0..<length (actors s)]) @ caller_moves s (pc s)"

text \<open>Any number of steps.\<close>

inductive steps :: "group \<Rightarrow> group \<Rightarrow> bool" where
  here: "steps s s"
| further: "steps s t \<Longrightarrow> step t u \<Longrightarrow> steps s u"

text \<open>
  A call of \<open>Run\<close> on the Group as it stands, whatever the caller did before: the
  caller is placed before the first \<open>select\<close> of \<open>Run\<close>. The steps above make this
  call only once every \<open>Start\<close> has returned nil; \<open>call_Run\<close> also describes a caller
  that goes on to \<open>Run\<close> after a \<open>Start\<close> has returned an error.
\<close>

definition call_Run :: "group \<Rightarrow> group" where
  "call_Run s = s\<lparr>pc := RunLoop 0\<rparr>"

text \<open>The zero Group before the first \<open>Start\<close>, with the actors to be started.\<close>

definition initial :: "kind list \<Rightarrow> group" where
  "initial ks = \<lparr>actors = [], errc = None, pc = Starting ks, trace = []\<rparr>"

fun returned :: "group \<Rightarrow> bool" where
  "returned s = (case pc s of StartReturned e \<Rightarrow> True | RunReturned r \<Rightarrow> True | _ \<Rightarrow> False)"

text \<open>
  The trace of \<open>g.interrupt(e)\<close> on \<open>n\<close> actors once the actors from \<open>j\<close> on have been
  interrupted and waited for: the actors \<open>n - 1\<close> down to \<open>j\<close>, each interrupt followed
  by the wait for the same actor.
\<close>

definition interrupts_down :: "nat \<Rightarrow> nat \<Rightarrow> error \<Rightarrow> signal list" where
  "interrupts_down n j e = concat (map (\<lambda>i. [Interrupt i e, Joined i]) (rev [j..<n]))"

fun signal_actor :: "signal \<Rightarrow> nat" where
  "signal_actor (Interrupt i e) = i"
| "signal_actor (Joined i) = i"

text \<open>An upper bound on the number of steps still possible.\<close>

fun phase_rank :: "actor \<Rightarrow> nat" where
  "phase_rank a = (case phase a of Running \<Rightarrow> 2 | Sent \<Rightarrow> 1 | Exited \<Rightarrow> 0)"

fun pc_rank :: "nat \<Rightarrow> pc \<Rightarrow> nat" where
  "pc_rank n (Starting ks) = 3 * (n + length ks) + 4 + 3 * length ks"
| "pc_rank n (RunLoop i) = 3 * n + 3 - i"
| "pc_rank n (Interrupting j e c) = 2 * j + 1"
| "pc_rank n (Waiting j e c) = 2 * j + 2"
| "pc_rank n (StartReturned e) = 0"
| "pc_rank n (RunReturned r) = 0"

definition steps_left :: "group \<Rightarrow> nat" where
  "steps_left s = pc_rank (length (actors s)) (pc s) + sum_list (map phase_rank (actors s))"

text \<open>
  What holds of every Group reached from \<open>initial ks\<close>, by the position of the calling
  goroutine: which actors are registered, which have been interrupted, which are known to
  have exited, and what the trace is.
\<close>

definition group_inv :: "kind list \<Rightarrow> group \<Rightarrow> bool" where
  "group_inv ks s \<longleftrightarrow>
     (let n = length (actors s) in
      (\<forall>i<n. (\<exists>r. kind (actors s ! i) = Service r) \<and> phase (actors s ! i) \<noteq> Running \<longrightarrow>
         interrupted (actors s ! i)) \<and>
      (\<exists>p. map kind (actors s) @ p = ks) \<and>
      (case pc s of
         Starting p \<Rightarrow>
           map kind (actors s) @ p = ks \<and> trace s = [] \<and> (\<forall>i<n. \<not> interrupted (actors s ! i))
       | RunLoop i \<Rightarrow>
           map kind (actors s) = ks \<and> trace s = [] \<and> (\<forall>i<n. \<not> interrupted (actors s ! i)) \<and>
           i \<le> n \<and> (\<forall>j<i. phase (actors s ! j) = Exited)
       | Interrupting j e c \<Rightarrow>
           (c = FromRun \<longrightarrow> map kind (actors s) = ks) \<and> j \<le> n \<and>
           trace s = interrupts_down n j e \<and>
           (\<forall>i<n. j \<le> i \<longrightarrow> phase (actors s ! i) = Exited) \<and>
           (\<forall>i<n. interrupted (actors s ! i) \<longleftrightarrow> j \<le> i)
       | Waiting j e c \<Rightarrow>
           (c = FromRun \<longrightarrow> map kind (actors s) = ks) \<and> j < n \<and>
           trace s = interrupts_down n (Suc j) e @ [Interrupt j e] \<and>
           (\<forall>i<n. j < i \<longrightarrow> phase (actors s ! i) = Exited) \<and>
           (\<forall>i<n. interrupted (actors s ! i) \<longleftrightarrow> j \<le> i)
       | StartReturned e \<Rightarrow>
           trace s = interrupts_down n 0 e \<and> (\<forall>i<n. phase (actors s ! i) = Exited)
       | RunReturned r \<Rightarrow>
           map kind (actors s) = ks \<and> (\<forall>i<n. phase (actors s ! i) = Exited) \<and>
           (trace s = [] \<and> (\<forall>i<n. \<not> interrupted (actors s ! i)) \<or>
            (\<exists>e. r = Some e \<and> trace s = interrupts_down n 0 e))))"

text \<open>
  What holds in addition when the actor \<open>k\<close> is the only one whose \<open>execute\<close> returns a
  non-nil error of its own accord, and that error is \<open>E\<close>.
\<close>

definition single_failure_inv :: "nat \<Rightarrow> error \<Rightarrow> group \<Rightarrow> bool" where
  "single_failure_inv k E s \<longleftrightarrow>
     (case pc s of
        Starting p \<Rightarrow>
          errc s = (if k < length (actors s) \<and> phase (actors s ! k) \<noteq> Running then Some E else None)
      | RunLoop i \<Rightarrow>
          errc s = (if k < length (actors s) \<and> phase (actors s ! k) \<noteq> Running then Some E else None)
      | Interrupting j e c \<Rightarrow> e = E
      | Waiting j e c \<Rightarrow> e = E
      | StartReturned e \<Rightarrow> e = E
      | RunReturned r \<Rightarrow> r = Some E)"

text \<open>
  What holds from a call of \<open>Start\<close> on, when the call finds the error \<open>E\<close> in
  \<open>errc\<close>: \<open>s0\<close> is the Group at the call.
\<close>

definition start_inv :: "group \<Rightarrow> error \<Rightarrow> group \<Rightarrow> bool" where
  "start_inv s0 E s \<longleftrightarrow>
     map kind (actors s) = map kind (actors s0) \<and>
     (case pc s of
        Starting p \<Rightarrow> pc s0 = Starting p \<and> p \<noteq> [] \<and> errc s = Some E
      | RunLoop i \<Rightarrow> False
      | Interrupting j e c \<Rightarrow> e = E \<and> c = FromStart
      | Waiting j e c \<Rightarrow> e = E \<and> c = FromStart
      | StartReturned e \<Rightarrow> e = E
      | RunReturned r \<Rightarrow> False)"

text \<open>
  What holds of every Group reached when no actor returns a non-nil error of its own
  accord: \<open>errc\<close> stays empty and \<open>g.interrupt\<close> is never entered.
\<close>

definition no_failure_inv :: "group \<Rightarrow> bool" where
  "no_failure_inv s \<longleftrightarrow>
     errc s = None \<and> trace s = [] \<and>
     (case pc s of
        Starting p \<Rightarrow> True
      | RunLoop i \<Rightarrow> True
      | Interrupting j e c \<Rightarrow> False
      | Waiting j e c \<Rightarrow> False
      | StartReturned e \<Rightarrow> False
      | RunReturned r \<Rightarrow> r = None)"

section \<open>Properties of the Bridge\<close>

subsection \<open>Routes and listeners stay paired\<close>

lemma Listen_append_routes:
  "routes (Listen_append nws c p ln b) = routes b @ map (\<lambda>nw. \<lparr>network = nw, cidr = c, port = p\<rparr>) nws"
  by (induction nws arbitrary: b) simp_all

lemma Listen_append_listeners:
  "listeners (Listen_append nws c p ln b) = listeners b @ replicate (length nws) ln"
  by (induction nws arbitrary: b) (simp_all add: replicate_app_Cons_same)

lemma initOnce_routes: "routes (initOnce b) = routes b"
  by (simp add: initOnce_def init_def)

lemma initOnce_listeners: "listeners (initOnce b) = listeners b"
  by (simp add: initOnce_def init_def)

lemma Listen_lengths:
  assumes "Listen shp cdr atoi b h nw address = Returns (r, b', h')"
    and "length (routes b) = length (listeners b)"
  shows "length (routes b') = length (listeners b')"
  using assms
  by (auto simp: Listen_def Let_def newListenerChan_def Listen_append_routes
      Listen_append_listeners initOnce_routes initOnce_listeners
      split: sum.splits prod.splits if_splits)

lemma listen_built_lengths:
  "listen_built shp cdr atoi b \<Longrightarrow> length (routes b) = length (listeners b)"
  by (induction rule: listen_built.induct) (auto dest: Listen_lengths)

lemma matchRoute_loop_None:
  "i + length rs \<le> length ls \<Longrightarrow>
   matchRoute_loop contains rs ls i nw ip p = Returns None \<longleftrightarrow>
   (\<forall>k<length rs. \<not> route_matches contains (rs ! k) nw ip p)"
proof (induction rs arbitrary: i)
  case Nil
  then show ?case by simp
next
  case (Cons r rs)
  then show ?case
    by (auto simp: route_matches_def All_less_Suc2 nth_Cons')
qed

lemma matchRoute_loop_Some:
  "i + length rs \<le> length ls \<Longrightarrow>
   matchRoute_loop contains rs ls i nw ip p = Returns (Some l) \<longleftrightarrow>
   (\<exists>k<length rs. route_matches contains (rs ! k) nw ip p \<and>
      (\<forall>j<k. \<not> route_matches contains (rs ! j) nw ip p) \<and> l = ls ! (i + k))"
proof (induction rs arbitrary: i)
  case Nil
  then show ?case by simp
next
  case (Cons r rs)
  show ?case
  proof (cases "route_matches contains r nw ip p")
    case True
    have "(\<exists>k<length (r # rs). route_matches contains ((r # rs) ! k) nw ip p \<and>
      (\<forall>j<k. \<not> route_matches contains ((r # rs) ! j) nw ip p) \<and> l = ls ! (i + k)) \<longleftrightarrow> l = ls ! i"
    proof
      assume "\<exists>k<length (r # rs). route_matches contains ((r # rs) ! k) nw ip p \<and>
        (\<forall>j<k. \<not> route_matches contains ((r # rs) ! j) nw ip p) \<and> l = ls ! (i + k)"
      then obtain k where k: "\<forall>j<k. \<not> route_matches contains ((r # rs) ! j) nw ip p" "l = ls ! (i + k)"
        by blast
      have "k = 0"
      proof (rule ccontr)
        assume "k \<noteq> 0"
        then have "0 < k" by simp
        with k(1) have "\<not> route_matches contains ((r # rs) ! 0) nw ip p" by blast
        with True show False by simp
      qed
      with k(2) show "l = ls ! i" by simp
    next
      assume "l = ls ! i"
      with True show "\<exists>k<length (r # rs). route_matches contains ((r # rs) ! k) nw ip p \<and>
        (\<forall>j<k. \<not> route_matches contains ((r # rs) ! j) nw ip p) \<and> l = ls ! (i + k)"
        by (intro exI [of _ 0]) simp
    qed
    moreover from True Cons.prems
    have "matchRoute_loop contains (r # rs) ls i nw ip p = Returns (Some (ls ! i))"
      by (auto simp: route_matches_def)
    ultimately show ?thesis by auto
  next
    case False
    then have step: "matchRoute_loop contains (r # rs) ls i nw ip p =
        matchRoute_loop contains rs ls (Suc i) nw ip p"
      by (auto simp: route_matches_def)
    from Cons.prems have "Suc i + length rs \<le> length ls" by simp
    note IH = Cons.IH [OF this]
    have "(\<exists>k<length (r # rs). route_matches contains ((r # rs) ! k) nw ip p \<and>
      (\<forall>j<k. \<not> route_matches contains ((r # rs) ! j) nw ip p) \<and> l = ls ! (i + k)) \<longleftrightarrow>
      (\<exists>k<length rs. route_matches contains (rs ! k) nw ip p \<and>
      (\<forall>j<k. \<not> route_matches contains (rs ! j) nw ip p) \<and> l = ls ! (Suc i + k))"
      (is "?L \<longleftrightarrow> ?R")
    proof
      assume ?L
      then obtain k where k: "k < length (r # rs)" "route_matches contains ((r # rs) ! k) nw ip p"
        "\<forall>j<k. \<not> route_matches contains ((r # rs) ! j) nw ip p" "l = ls ! (i + k)"
        by blast
      from k(2) False have "k \<noteq> 0" by (cases k) auto
      then obtain k' where k': "k = Suc k'" by (cases k) auto
      from k(3) k' have "\<forall>j<k'. \<not> route_matches contains (rs ! j) nw ip p"
        by (metis Suc_less_eq nth_Cons_Suc)
      with k k' show ?R by (intro exI [of _ k']) simp
    next
      assume ?R
      then obtain k where k: "k < length rs" "route_matches contains (rs ! k) nw ip p"
        "\<forall>j<k. \<not> route_matches contains (rs ! j) nw ip p" "l = ls ! (Suc i + k)"
        by blast
      from k(3) False have "\<forall>j<Suc k. \<not> route_matches contains ((r # rs) ! j) nw ip p"
        by (simp add: All_less_Suc2)
      with k show ?L by (intro exI [of _ "Suc k"]) simp
    qed
    with step IH show ?thesis by simp
  qed
qed

lemma matchRoute_loop_no_panic:
  "i + length rs \<le> length ls \<Longrightarrow> matchRoute_loop contains rs ls i nw ip p \<noteq> Panics m"
  by (induction rs arbitrary: i) auto

lemma matchRoute_loop_no_block:
  "matchRoute_loop contains rs ls i nw ip p \<noteq> Blocks"
  by (induction rs arbitrary: i) auto

lemma Listen_test_first:
  "Listen test_SplitHostPort test_ParseCIDR test_Atoi newBridge ([] :: unit heap) ''tcp+udp'' ''0.0.0.0/0:0''
     = Returns (Inr 0, bridge1, heap1)"
  by (simp add: Listen_def parseNetworkAddress_def test_SplitHostPort_def test_ParseCIDR_def
      test_Atoi_def newBridge_def initOnce_def init_def uint16_def newListenerChan_def bridge1_def
      heap1_def)

lemma Listen_test_second:
  "Listen test_SplitHostPort test_ParseCIDR test_Atoi bridge1 heap1 ''tcp'' ''192.168.1.40/29:128''
     = Returns (Inr 1, bridge2, heap2)"
  by (simp add: Listen_def parseNetworkAddress_def test_SplitHostPort_def test_ParseCIDR_def
      test_Atoi_def initOnce_def init_def uint16_def newListenerChan_def bridge1_def bridge2_def
      heap1_def heap2_def)

lemma listen_built_bridge2: "listen_built test_SplitHostPort test_ParseCIDR test_Atoi bridge2"
proof -
  have "listen_built test_SplitHostPort test_ParseCIDR test_Atoi newBridge"
    by (rule listen_built.fresh) (simp_all add: newBridge_def)
  then have "listen_built test_SplitHostPort test_ParseCIDR test_Atoi bridge1"
    by (rule listen_built.listen [OF _ Listen_test_first])
  then show ?thesis
    by (rule listen_built.listen [OF _ Listen_test_second])
qed

text \<open>
  C1. On a Bridge built by calls of \<open>Listen\<close>, \<open>matchRoute\<close> returns a listener
  exactly when some registered route has the flow's transport, a CIDR that contains the
  destination address, and port 0 or the destination port; the listener returned is the
  one registered together with the earliest such route.
\<close>

theorem matchRoute_first_registered:
  assumes "listen_built shp cdr atoi b"
  shows "matchRoute contains b nw ip p =
     (if \<exists>i<length (routes b). route_matches contains (routes b ! i) nw ip p
      then Returns (Some (listeners b !
             (LEAST i. i < length (routes b) \<and> route_matches contains (routes b ! i) nw ip p)))
      else Returns None)"
proof -
  from assms have len: "0 + length (routes b) \<le> length (listeners b)"
    by (simp add: listen_built_lengths)
  show ?thesis
  proof (cases "\<exists>i<length (routes b). route_matches contains (routes b ! i) nw ip p")
    case True
    define k where "k = (LEAST i. i < length (routes b) \<and> route_matches contains (routes b ! i) nw ip p)"
    from True have k: "k < length (routes b) \<and> route_matches contains (routes b ! k) nw ip p"
      unfolding k_def by (rule LeastI_ex)
    have least: "\<forall>j<k. \<not> route_matches contains (routes b ! j) nw ip p"
    proof (intro allI impI)
      fix j assume "j < k"
      then have "\<not> (j < length (routes b) \<and> route_matches contains (routes b ! j) nw ip p)"
        unfolding k_def by (rule not_less_Least)
      with \<open>j < k\<close> k show "\<not> route_matches contains (routes b ! j) nw ip p" by simp
    qed
    from k least have "matchRoute_loop contains (routes b) (listeners b) 0 nw ip p =
        Returns (Some (listeners b ! k))"
      using matchRoute_loop_Some [OF len, of contains nw ip p "listeners b ! k"] by auto
    with True show ?thesis by (simp add: matchRoute_def k_def)
  next
    case False
    then have "matchRoute_loop contains (routes b) (listeners b) 0 nw ip p = Returns None"
      using matchRoute_loop_None [OF len, of contains nw ip p] by simp
    with False show ?thesis by (simp add: matchRoute_def)
  qed
qed

theorem matchRoute_first_registered_witness:
  "listen_built test_SplitHostPort test_ParseCIDR test_Atoi bridge2 \<and>
   matchRoute Contains4 bridge2 ''tcp'' [192, 168, 1, 42] 128 = Returns (Some 0)"
proof -
  let ?m = "\<lambda>i. i < length (routes bridge2) \<and>
     route_matches Contains4 (routes bridge2 ! i) ''tcp'' [192, 168, 1, 42] 128"
  have m0: "?m 0"
    by (simp add: bridge2_def route_matches_def Contains4_def)
  then have ex: "\<exists>i<length (routes bridge2).
      route_matches Contains4 (routes bridge2 ! i) ''tcp'' [192, 168, 1, 42] 128"
    by blast
  from m0 have least: "(LEAST i. ?m i) = 0"
    by (intro Least_equality) simp_all
  have l0: "listeners bridge2 ! 0 = 0"
    by (simp add: bridge2_def)
  from matchRoute_first_registered [OF listen_built_bridge2, of Contains4 "''tcp''" "[192, 168, 1, 42]" 128]
    ex least l0 listen_built_bridge2
  show ?thesis by simp
qed

subsection \<open>Listen\<close>

lemma Split_no_sep: "c \<notin> set t \<Longrightarrow> Split t c = [t]"
  by (induction t) auto

lemma Split_append_sep:
  "c \<notin> set t \<Longrightarrow> Split (t @ c # s) c = t # Split s c"
  by (induction t) auto

lemma Split_Join:
  "ts \<noteq> [] \<Longrightarrow> \<forall>t\<in>set ts. c \<notin> set t \<Longrightarrow> Split (Join ts c) c = ts"
proof (induction ts c rule: Join.induct)
  case (1 c)
  then show ?case by simp
next
  case (2 t c)
  then show ?case by (simp add: Split_no_sep)
next
  case (3 t u ts c)
  then show ?case by (simp add: Split_append_sep)
qed

lemma Listen_append_eq:
  "Listen_append nws c p ln b =
     b\<lparr>routes := routes b @ map (\<lambda>nw. \<lparr>network = nw, cidr = c, port = p\<rparr>) nws,
       listeners := listeners b @ replicate (length nws) ln\<rparr>"
  by (induction nws arbitrary: b) (simp_all add: replicate_app_Cons_same)

lemma uint16_fits: "uint (uint16 n) = n \<longleftrightarrow> 0 \<le> n \<and> n < 2 ^ 16"
proof -
  have "uint (uint16 n) = n mod 2 ^ 16"
    by (simp add: uint16_def uint_word_of_int)
  then show ?thesis
    by auto
qed

lemma Listen_parse_error:
  assumes "parseNetworkAddress splitHostPort parseCIDR atoi nw address = Inl err"
  shows "Listen splitHostPort parseCIDR atoi b h nw address = Returns (Inl err, initOnce b, h)"
  using assms by (simp add: Listen_def Let_def)

text \<open>
  C6. When the address splits into a host that parses as a CIDR and a port string that
  \<open>Atoi\<close> reads as a number, and the network is a \<open>+\<close>-joined list of transports,
  \<open>Listen\<close> on a Bridge with a non-negative \<open>MaxInFlight\<close> does the following. If the
  number fits in 16 bits, it appends one route per listed transport, pairs each of them with
  one newly allocated listener whose channel has capacity \<open>MaxInFlight\<close> (4096 when the
  Bridge is initialised by this call with \<open>MaxInFlight = 0\<close>), and returns that listener.
  Otherwise it returns the error \<open>invalid port number\<close> and registers nothing.
\<close>

theorem Listen_one_route_per_transport:
  assumes "splitHostPort address = Inr (host, portstr)"
    and "parseCIDR host = Inr ipnet"
    and "atoi portstr = Inr portnum"
    and "ts \<noteq> []" and "\<forall>t\<in>set ts. CHR ''+'' \<notin> set t"
    and "0 \<le> MaxInFlight b"
  shows "Listen splitHostPort parseCIDR atoi b h (Join ts (CHR ''+'')) address =
     (if 0 \<le> portnum \<and> portnum < 2 ^ 16
      then Returns (Inr (length h),
             (initOnce b)\<lparr>routes := routes b @
                 map (\<lambda>t. \<lparr>network = t, cidr = ipnet, port = uint16 portnum\<rparr>) ts,
               listeners := listeners b @ replicate (length ts) (length h)\<rparr>,
             h @ [\<lparr>ch = Some \<lparr>buf = [],
                    cap = nat (if \<not> inito b \<and> MaxInFlight b = 0 then 2 ^ 12 else MaxInFlight b),
                    closed = False\<rparr>\<rparr>])
      else Returns (Inl (ErrorString ''invalid port number''), initOnce b, h))"
proof -
  have split: "Split (Join ts (CHR ''+'')) (CHR ''+'') = ts"
    using assms(4,5) by (rule Split_Join)
  have mif: "MaxInFlight (initOnce b) =
      (if \<not> inito b \<and> MaxInFlight b = 0 then 2 ^ 12 else MaxInFlight b)"
    by (simp add: initOnce_def init_def)
  with assms(6) have nonneg: "\<not> MaxInFlight (initOnce b) < 0"
    by (auto split: if_splits)
  have rl: "routes (initOnce b) = routes b" "listeners (initOnce b) = listeners b"
    by (simp_all add: initOnce_def init_def)
  show ?thesis
  proof (cases "0 \<le> portnum \<and> portnum < 2 ^ 16")
    case True
    then have "uint (uint16 portnum) = portnum" by (simp add: uint16_fits)
    then have "parseNetworkAddress splitHostPort parseCIDR atoi (Join ts (CHR ''+'')) address =
        Inr (ts, ipnet, uint16 portnum)"
      using assms(1-3) split by (simp add: parseNetworkAddress_def)
    with True nonneg show ?thesis
      unfolding mif [symmetric]
      by (simp add: Listen_def Let_def newListenerChan_def Listen_append_eq rl)
  next
    case False
    then have "uint (uint16 portnum) \<noteq> portnum" by (simp add: uint16_fits)
    then have "parseNetworkAddress splitHostPort parseCIDR atoi (Join ts (CHR ''+'')) address =
        Inl (ErrorString ''invalid port number'')"
      using assms(1-3) by (simp add: parseNetworkAddress_def)
    with False show ?thesis
      by (simp add: Listen_def Let_def)
  qed
qed

theorem Listen_one_route_per_transport_witness:
  "Listen test_SplitHostPort test_ParseCIDR test_Atoi newBridge ([] :: unit heap)
      ''tcp+udp'' ''0.0.0.0/0:0'' = Returns (Inr 0, bridge1, heap1) \<and>
   Listen test_SplitHostPort test_ParseCIDR test_Atoi newBridge ([] :: unit heap)
      ''tcp+udp'' ''0.0.0.0/0:65536'' =
     Returns (Inl (ErrorString ''invalid port number''),
       \<lparr>MaxInFlight = 4096, routes = [], listeners = [], inito = True\<rparr>, [])"
proof -
  have ts: "[''tcp'', ''udp''] \<noteq> []" "\<forall>t\<in>set [''tcp'', ''udp'']. CHR ''+'' \<notin> set t"
    by simp_all
  have mif: "0 \<le> MaxInFlight newBridge"
    by (simp add: newBridge_def)
  have c: "test_ParseCIDR ''0.0.0.0/0'' = Inr \<lparr>IP = [0, 0, 0, 0], Mask = [0, 0, 0, 0]\<rparr>"
    by (simp add: test_ParseCIDR_def)
  have s0: "test_SplitHostPort ''0.0.0.0/0:0'' = Inr (''0.0.0.0/0'', ''0'')"
    and a0: "test_Atoi ''0'' = Inr 0"
    by (simp_all add: test_SplitHostPort_def test_Atoi_def)
  have s1: "test_SplitHostPort ''0.0.0.0/0:65536'' = Inr (''0.0.0.0/0'', ''65536'')"
    and a1: "test_Atoi ''65536'' = Inr 65536"
    by (simp_all add: test_SplitHostPort_def test_Atoi_def)
  note inst = Listen_one_route_per_transport [where splitHostPort = test_SplitHostPort
      and parseCIDR = test_ParseCIDR and atoi = test_Atoi and h = "[] :: unit heap"]
  from inst [where address = "''0.0.0.0/0:0''", OF s0 c a0 ts mif]
    inst [where address = "''0.0.0.0/0:65536''", OF s1 c a1 ts mif]
  show ?thesis
    by (simp add: newBridge_def bridge1_def heap1_def initOnce_def init_def uint16_def)
qed

subsection \<open>Dial\<close>

text \<open>
  C10. \<open>Dial\<close> compares the two \<open>Network()\<close> strings as they are: whenever they differ,
  also when they name the same transport as \<open>"tcp"\<close> and \<open>"tcp4"\<close> do, \<open>Dial\<close> returns
  the error \<open>dial: network mismatch\<close>.
\<close>

theorem Dial_network_mismatch:
  assumes "addrNetwork laddr \<noteq> addrNetwork raddr"
  shows "Dial dialUDP dialTCP b ctx laddr raddr =
     Returns (Inl (ErrorString ''dial: network mismatch''), initOnce b)"
  using assms by (simp add: Dial_def)

theorem Dial_network_mismatch_witness:
  "addrNetwork (TCPAddr [192, 168, 1, 2] 0 '''') \<noteq> addrNetwork (OtherAddr ''tcp4'' ''192.168.1.42:128'') \<and>
   Dial (\<lambda>l r. Inr ()) (\<lambda>c l r. Inr ()) newBridge ()
     (TCPAddr [192, 168, 1, 2] 0 '''') (OtherAddr ''tcp4'' ''192.168.1.42:128'') =
     Returns (Inl (ErrorString ''dial: network mismatch''),
       \<lparr>MaxInFlight = 4096, routes = [], listeners = [], inito = True\<rparr>)"
proof -
  have ne: "addrNetwork (TCPAddr [192, 168, 1, 2] 0 '''') \<noteq> addrNetwork (OtherAddr ''tcp4'' ''192.168.1.42:128'')"
    by simp
  from Dial_network_mismatch [OF ne, of "\<lambda>l r. Inr ()" "\<lambda>c l r. Inr ()" newBridge "()"] ne
  show ?thesis
    by (simp add: newBridge_def initOnce_def init_def)
qed

section \<open>Properties of the Forwarder\<close>

lemma Port_resolveAddr:
  assumes "resolveAddr resolveUDP resolveTCP f nw address = Inr a" and "\<not> ReusePort f"
  shows "Port a = Some 0"
  using assms by (auto simp: resolveAddr_def split: if_splits sum.splits)

text \<open>
  C7. For the networks \<open>udp\<close>, \<open>udp4\<close>, \<open>tcp\<close> and \<open>tcp4\<close> and an address that the
  library resolves, \<open>Forward\<close> is the call of \<open>Dial\<close> whose local address is the resolved
  one with port 0 when \<open>ReusePort\<close> is false and with the resolved port when it is true.
\<close>

theorem Forward_local_port:
  assumes "nw \<in> {''udp'', ''udp4'', ''tcp'', ''tcp4''}"
    and "(if nw \<in> {''udp'', ''udp4''} then resolveUDP else resolveTCP) nw address = Inr (ip, p, z)"
    and "la = (if nw \<in> {''udp'', ''udp4''} then UDPAddr else TCPAddr) ip (if ReusePort f then p else 0) z"
  shows "Forward resolveUDP resolveTCP withTimeout dialUDP dialTCP f b ctx nw address =
           Dial dialUDP dialTCP b (if Timeout f \<noteq> 0 then withTimeout ctx (Timeout f) else ctx)
             la (RemoteAddr f) \<and>
         Port la = Some (if ReusePort f then p else 0)"
  using assms by (auto simp: Forward_def resolveAddr_def)

theorem Forward_local_port_witness:
  "Forward test_Resolve test_Resolve (\<lambda>c d. c) (\<lambda>l r. Inr (l, r)) (\<lambda>c l r. Inr (l, r))
     \<lparr>RemoteAddr = UDPAddr [10, 41, 42, 43] 512 '''', Timeout = 0, ReusePort = False\<rparr>
     newBridge () ''udp'' ''4.3.2.1:8765'' =
     Returns (Inr (UDPAddr [4, 3, 2, 1] 0 '''', UDPAddr [10, 41, 42, 43] 512 ''''),
       \<lparr>MaxInFlight = 4096, routes = [], listeners = [], inito = True\<rparr>) \<and>
   Forward test_Resolve test_Resolve (\<lambda>c d. c) (\<lambda>l r. Inr (l, r)) (\<lambda>c l r. Inr (l, r))
     \<lparr>RemoteAddr = TCPAddr [10, 1, 2, 42] 256 '''', Timeout = 0, ReusePort = True\<rparr>
     newBridge () ''tcp'' ''1.2.3.4:5678'' =
     Returns (Inr (TCPAddr [1, 2, 3, 4] 5678 '''', TCPAddr [10, 1, 2, 42] 256 ''''),
       \<lparr>MaxInFlight = 4096, routes = [], listeners = [], inito = True\<rparr>)"
proof -
  have nw: "''udp'' \<in> {''udp'', ''udp4'', ''tcp'', ''tcp4''}"
      "''tcp'' \<in> {''udp'', ''udp4'', ''tcp'', ''tcp4''}"
    by simp_all
  have ru: "(if ''udp'' \<in> {''udp'', ''udp4''} then test_Resolve else test_Resolve)
      ''udp'' ''4.3.2.1:8765'' = Inr ([4, 3, 2, 1], 8765, '''')"
    by (simp add: test_Resolve_def)
  have rt: "(if ''tcp'' \<in> {''udp'', ''udp4''} then test_Resolve else test_Resolve)
      ''tcp'' ''1.2.3.4:5678'' = Inr ([1, 2, 3, 4], 5678, '''')"
    by (simp add: test_Resolve_def)
  note inst = Forward_local_port [where resolveUDP = test_Resolve and resolveTCP = test_Resolve
      and withTimeout = "\<lambda>c d. c" and dialUDP = "\<lambda>l r. Inr (l, r)"
      and dialTCP = "\<lambda>c l r. Inr (l, r)" and b = newBridge and ctx = "()"]
  from inst [where f = "\<lparr>RemoteAddr = UDPAddr [10, 41, 42, 43] 512 '''', Timeout = 0, ReusePort = False\<rparr>",
        OF nw(1) ru refl]
    inst [where f = "\<lparr>RemoteAddr = TCPAddr [10, 1, 2, 42] 256 '''', Timeout = 0, ReusePort = True\<rparr>",
        OF nw(2) rt refl]
  show ?thesis
    by (simp add: Dial_def newBridge_def initOnce_def init_def)
qed

section \<open>Properties of the listener channel\<close>

lemma Accept_after_Close:
  assumes "Close l = Returns (e, l')"
  shows "Accept l' = Returns (Inl EINVAL, l')"
  using assms by (auto simp: Close_def Accept_def split: option.splits if_splits)

lemma send_after_Close:
  assumes "Close l = Returns (e, l')"
  shows "send l' conn = Returns l'"
  using assms by (auto simp: Close_def send_def split: option.splits if_splits)

lemma Close_returns_nil:
  assumes "ch l = Some c" and "\<not> closed c"
  shows "Close l = Returns (None, l\<lparr>ch := None\<rparr>)"
  using assms by (simp add: Close_def)

lemma Close_after_Close:
  assumes "Close l = Returns (e, l')"
  shows "Close l' = Panics ''close of nil channel''"
  using assms by (auto simp: Close_def split: option.splits if_splits)

text \<open>
  C2. On the listener that \<open>Listen\<close> creates with the default capacity, the first
  \<open>Close\<close> returns nil and leaves the nil channel in the listener; \<open>Accept\<close> then returns
  \<open>EINVAL\<close> and \<open>send\<close> does nothing; the second \<open>Close\<close> panics.
\<close>

theorem Close_twice_panics:
  "Close \<lparr>ch = Some \<lparr>buf = [] :: unit list, cap = 4096, closed = False\<rparr>\<rparr> = Returns (None, \<lparr>ch = None\<rparr>) \<and>
   Accept \<lparr>ch = None :: unit chan option\<rparr> = Returns (Inl EINVAL, \<lparr>ch = None\<rparr>) \<and>
   send \<lparr>ch = None :: unit chan option\<rparr> () = Returns \<lparr>ch = None\<rparr> \<and>
   Close \<lparr>ch = None :: unit chan option\<rparr> = Panics ''close of nil channel''"
  by (simp add: Close_def Accept_def send_def)

section \<open>Properties of the Network\<close>





section \<open>Properties of the NAT\<close>

lemma Run_goroutines:
  "snd (Run EgressDial LocalAddr proxy errorText accepts) =
     map (forward EgressDial LocalAddr proxy errorText) (accepted accepts)"
proof (induction accepts)
  case Nil
  then show ?case by simp
next
  case (Cons a accepts)
  then show ?case
    by (cases a) (simp_all add: split_beta)
qed

text \<open>
  C9. What \<open>forward\<close> does with an accepted client: when \<open>EgressDial\<close> fails with a
  \<open>net.Error\<close> whose \<open>Timeout()\<close> is true, nothing is done to the client; when it fails
  with any other error, the client is closed and nothing else is done; the client is
  spliced with a server connection exactly when \<open>EgressDial\<close> returned that connection,
  and then it is not closed by \<open>forward\<close>.
\<close>

theorem forward_dial_outcomes:
  "(\<forall>err. EgressDial (LocalAddr client) = Inl err \<and> netErrorTimeout err = Some True \<longrightarrow>
      forward EgressDial LocalAddr proxy errorText client = ([], Returns ())) \<and>
   (\<forall>err. EgressDial (LocalAddr client) = Inl err \<and> netErrorTimeout err \<noteq> Some True \<longrightarrow>
      forward EgressDial LocalAddr proxy errorText client = ([Closed client], Returns ())) \<and>
   (\<forall>server. Spliced client server \<in> set (fst (forward EgressDial LocalAddr proxy errorText client)) \<longleftrightarrow>
      EgressDial (LocalAddr client) = Inr server) \<and>
   (\<forall>server. EgressDial (LocalAddr client) = Inr server \<longrightarrow>
      fst (forward EgressDial LocalAddr proxy errorText client) = [Spliced client server])"
  by (auto simp: forward_def split: sum.splits option.splits bool.splits)

theorem forward_dial_outcomes_witness:
  "forward (\<lambda>a. Inl (NetError True ''i/o timeout'')) (\<lambda>c. TCPAddr [1, 2, 3, 4] 5678 '''')
     (\<lambda>c s. None) (\<lambda>e. ''error'') (1 :: nat) = ([], Returns ()) \<and>
   forward (\<lambda>a. Inl (ErrorString ''connection refused'')) (\<lambda>c. TCPAddr [1, 2, 3, 4] 5678 '''')
     (\<lambda>c s. None) (\<lambda>e. ''error'') (1 :: nat) = ([Closed 1], Returns ()) \<and>
   fst (forward (\<lambda>a. Inr 2) (\<lambda>c. TCPAddr [1, 2, 3, 4] 5678 '''')
     (\<lambda>c s. None) (\<lambda>e. ''error'') (1 :: nat)) = [Spliced 1 2]"
proof -
  note inst = forward_dial_outcomes [where LocalAddr = "\<lambda>c. TCPAddr [1, 2, 3, 4] 5678 ''''"
      and proxy = "\<lambda>c s. None" and errorText = "\<lambda>e. ''error''" and client = "1 :: nat"]
  have t: "netErrorTimeout (NetError True ''i/o timeout'') = Some True"
    and r: "netErrorTimeout (ErrorString ''connection refused'') \<noteq> Some True"
    by simp_all
  from inst [where EgressDial = "\<lambda>a. Inl (NetError True ''i/o timeout'')"] t
  have 1: "forward (\<lambda>a. Inl (NetError True ''i/o timeout'')) (\<lambda>c. TCPAddr [1, 2, 3, 4] 5678 '''')
     (\<lambda>c s. None) (\<lambda>e. ''error'') (1 :: nat) = ([], Returns ())"
    by blast
  from inst [where EgressDial = "\<lambda>a. Inl (ErrorString ''connection refused'')"] r
  have 2: "forward (\<lambda>a. Inl (ErrorString ''connection refused'')) (\<lambda>c. TCPAddr [1, 2, 3, 4] 5678 '''')
     (\<lambda>c s. None) (\<lambda>e. ''error'') (1 :: nat) = ([Closed 1], Returns ())"
    by blast
  from inst [where EgressDial = "\<lambda>a. Inr 2"]
  have 3: "fst (forward (\<lambda>a. Inr 2) (\<lambda>c. TCPAddr [1, 2, 3, 4] 5678 '''')
     (\<lambda>c s. None) (\<lambda>e. ''error'') (1 :: nat)) = [Spliced 1 2]"
    by blast
  from 1 2 3 show ?thesis by blast
qed


section \<open>Properties of parseHexAddr\<close>

lemma swap_loop_step:
  assumes "length ip = length addr" and "i < length addr"
  shows "swap_loop addr i ip =
     (let ip' = ip[i := addr ! (length addr - 1 - i), length addr - 1 - i := addr ! i] in
      case i of 0 \<Rightarrow> Returns ip' | Suc k \<Rightarrow> swap_loop addr k ip')"
proof -
  from assms have opp: "nat (int (length addr) - 1 - int i) = length addr - 1 - i"
    by simp
  from assms have ok: "\<not> (int (length addr) - 1 - int i < 0 \<or>
      int (length addr) \<le> int (length addr) - 1 - int i \<or> length addr \<le> i \<or>
      int (length ip) \<le> int (length addr) - 1 - int i \<or> length ip \<le> i)"
    by simp
  show ?thesis
    by (subst swap_loop.simps) (simp only: Let_def ok if_False opp)
qed

lemma swap_loop_gen:
  assumes "length ip = length addr" and "i < length addr"
  shows "\<exists>ip'. swap_loop addr i ip = Returns ip' \<and> length ip' = length addr \<and>
     (\<forall>x<length addr. ip' ! x =
        (if x \<le> i \<or> length addr - 1 - x \<le> i then addr ! (length addr - 1 - x) else ip ! x))"
  using assms
proof (induction i arbitrary: ip)
  case 0
  then have "swap_loop addr 0 ip =
      Returns (ip[0 := addr ! (length addr - 1 - 0), length addr - 1 - 0 := addr ! 0])"
    by (simp add: swap_loop_step)
  with 0 show ?case
    by (auto simp: nth_list_update)
next
  case (Suc k)
  let ?n = "length addr"
  let ?ip1 = "ip[Suc k := addr ! (?n - 1 - Suc k), ?n - 1 - Suc k := addr ! Suc k]"
  from Suc.prems have step: "swap_loop addr (Suc k) ip = swap_loop addr k ?ip1"
    by (simp add: swap_loop_step)
  from Suc.prems have len1: "length ?ip1 = ?n" and k: "k < ?n"
    by simp_all
  from Suc.IH [OF len1 k] obtain ip' where ip': "swap_loop addr k ?ip1 = Returns ip'"
    "length ip' = ?n"
    "\<forall>x<?n. ip' ! x = (if x \<le> k \<or> ?n - 1 - x \<le> k then addr ! (?n - 1 - x) else ?ip1 ! x)"
    by blast
  have "\<forall>x<?n. ip' ! x =
      (if x \<le> Suc k \<or> ?n - 1 - x \<le> Suc k then addr ! (?n - 1 - x) else ip ! x)"
  proof (intro allI impI)
    fix x assume x: "x < ?n"
    with ip'(3) have e: "ip' ! x =
        (if x \<le> k \<or> ?n - 1 - x \<le> k then addr ! (?n - 1 - x) else ?ip1 ! x)"
      by blast
    from x Suc.prems have "?ip1 ! x =
        (if x = ?n - 1 - Suc k then addr ! Suc k else if x = Suc k then addr ! (?n - 1 - Suc k) else ip ! x)"
      by (simp add: nth_list_update)
    moreover from x Suc.prems have "x = ?n - 1 - Suc k \<Longrightarrow> Suc k = ?n - 1 - x"
      by arith
    ultimately show "ip' ! x =
        (if x \<le> Suc k \<or> ?n - 1 - x \<le> Suc k then addr ! (?n - 1 - x) else ip ! x)"
      using e x Suc.prems by (auto split: if_splits)
  qed
  with step ip'(1,2) show ?case by simp
qed

lemma swap_loop_rev:
  assumes "addr \<noteq> []"
  shows "swap_loop addr (length addr div 2) (replicate (length addr) 0) = Returns (rev addr)"
proof -
  let ?n = "length addr"
  from assms have i: "?n div 2 < ?n" by simp
  from swap_loop_gen [OF _ i, of "replicate ?n 0"] obtain ip' where
    ip': "swap_loop addr (?n div 2) (replicate ?n 0) = Returns ip'" "length ip' = ?n"
      "\<forall>x<?n. ip' ! x = (if x \<le> ?n div 2 \<or> ?n - 1 - x \<le> ?n div 2
          then addr ! (?n - 1 - x) else replicate ?n 0 ! x)"
    by auto
  have "ip' = rev addr"
  proof (rule nth_equalityI)
    show "length ip' = length (rev addr)" using ip'(2) by simp
  next
    fix x assume "x < length ip'"
    with ip'(2) have x: "x < ?n" by simp
    then have "x \<le> ?n div 2 \<or> ?n - 1 - x \<le> ?n div 2" by arith
    with ip'(3) x have "ip' ! x = addr ! (?n - 1 - x)" by simp
    with x show "ip' ! x = rev addr ! x" by (simp add: rev_nth)
  qed
  with ip'(1) show ?thesis by simp
qed

lemma swap_loop_empty:
  "swap_loop [] 0 (replicate 0 0) = Panics ''index out of range''"
  by (simp add: swap_loop.simps)

lemma parseHexAddr_reverses:
  assumes "CHR '':'' \<notin> set address" and "CHR '':'' \<notin> set portnum"
    and "DecodeString address = Returns (Inr addr)" and "addr \<noteq> []"
    and "Decode [0, 0] 0 portnum = Returns (Inr (pbuf, n))"
  shows "parseHexAddr (address @ CHR '':'' # portnum) =
     Returns (Inr (rev addr, uint (BigEndian_Uint16 pbuf)))"
proof -
  from assms(1,2) have "Split (address @ CHR '':'' # portnum) (CHR '':'') = [address, portnum]"
    by (simp add: Split_append_sep Split_no_sep)
  with assms(3,5) swap_loop_rev [OF assms(4)] show ?thesis
    by (simp add: parseHexAddr_def)
qed

lemma reverse_words_ipv4:
  assumes "length addr = 4"
  shows "rev addr = reverse_words addr"
proof -
  from assms obtain a b c d where "addr = [a, b, c, d]"
    by (auto simp: length_Suc_conv numeral_eq_Suc)
  then show ?thesis by simp
qed

text \<open>
  C5. On the token of \<open>/proc/net/tcp\<close> for \<open>127.0.0.1:80\<close> the code returns the
  address with its four bytes reversed and the port read as big-endian hex. On the token of
  \<open>/proc/net/tcp6\<close> for \<open>[::1]:22\<close> it returns all sixteen bytes in reverse order,
  which is \<open>0:1::\<close>; reversing each word of four bytes and keeping the order of the words
  gives \<open>::1\<close>.
\<close>

theorem parseHexAddr_reverses_whole_ipv6:
  "parseHexAddr ''0100007F:0050'' = Returns (Inr ([127, 0, 0, 1], 80)) \<and>
   DecodeString ''00000000000000000000000001000000'' =
     Returns (Inr [0, 0, 0, 0, 0, 0, 0, 0, 0, 0, 0, 0, 1, 0, 0, 0]) \<and>
   parseHexAddr ''00000000000000000000000001000000:0016'' =
     Returns (Inr ([0, 0, 0, 1, 0, 0, 0, 0, 0, 0, 0, 0, 0, 0, 0, 0], 22)) \<and>
   reverse_words [0, 0, 0, 0, 0, 0, 0, 0, 0, 0, 0, 0, 1, 0, 0, 0] =
     [0, 0, 0, 0, 0, 0, 0, 0, 0, 0, 0, 0, 0, 0, 0, 1]"
  by code_simp


section \<open>Properties of the Supervisor Group\<close>

text \<open>The step relation and the function \<open>successors\<close> describe the same steps.\<close>

lemma actor_step_successor:
  assumes "i < length (actors s)" and "t \<in> set (actor_moves s i)"
  shows "step s t"
  using assms
  by (auto simp: actor_moves_def split: if_splits intro: step.finish step.close)

lemma caller_step_successor:
  assumes "t \<in> set (caller_moves s (pc s))"
  shows "step s t"
proof (cases "pc s")
  case (Starting p)
  with assms show ?thesis
    by (cases p; cases "errc s") (auto intro: step.run_enter step.start_err step.start_ok)
next
  case (RunLoop i)
  show ?thesis
  proof (cases "i < length (actors s)")
    case True
    with RunLoop assms show ?thesis
      by (cases "errc s") (auto split: if_splits intro: step.run_err step.run_done)
  next
    case False
    with RunLoop assms have "i = length (actors s)"
      and "t = s\<lparr>errc := None, pc := RunReturned (errc s)\<rparr>"
      by (simp_all split: if_splits)
    with RunLoop show ?thesis
      using step.run_last [of s] by simp
  qed
next
  case (Interrupting j e c)
  with assms show ?thesis
    by (cases j) (auto intro: step.int_ret step.int_call)
next
  case (Waiting j e c)
  with assms show ?thesis
    by (auto split: if_splits intro: step.int_wait)
next
  case (StartReturned e)
  with assms show ?thesis by simp
next
  case (RunReturned r)
  with assms show ?thesis by simp
qed

lemma step_successors: "step s t \<longleftrightarrow> t \<in> set (successors s)"
proof
  assume "step s t"
  then show "t \<in> set (successors s)"
  proof (cases rule: step.cases)
    case (finish i)
    then have "t \<in> set (actor_moves s i)" by (simp add: actor_moves_def)
    with finish(2) show ?thesis by (auto simp: successors_def)
  next
    case (close i)
    then have "t \<in> set (actor_moves s i)" by (simp add: actor_moves_def)
    with close(2) show ?thesis by (auto simp: successors_def)
  next
    case (int_ret e c)
    then show ?thesis by (simp add: successors_def)
  qed (simp_all add: successors_def)
next
  assume "t \<in> set (successors s)"
  then consider i where "i < length (actors s)" "t \<in> set (actor_moves s i)"
    | "t \<in> set (caller_moves s (pc s))"
    by (auto simp: successors_def)
  then show "step s t"
    by cases (blast intro: actor_step_successor caller_step_successor)+
qed

text \<open>Every step lowers \<open>steps_left\<close>, so every run of the Group is finite.\<close>

lemma sum_list_phase_update:
  assumes "i < length xs"
  shows "sum_list (map phase_rank (xs[i := a])) + phase_rank (xs ! i) =
         sum_list (map phase_rank xs) + phase_rank a"
  using assms
proof (induction xs arbitrary: i)
  case Nil
  then show ?case by simp
next
  case (Cons x xs)
  then show ?case by (cases i) auto
qed

lemma step_decreases:
  assumes "step s t"
  shows "steps_left t < steps_left s"
  using assms
proof (cases rule: step.cases)
  case (finish i)
  from sum_list_phase_update [OF finish(2), of "(actors s ! i)\<lparr>phase := Sent\<rparr>"] finish
  show ?thesis by (simp add: steps_left_def)
next
  case (close i)
  from sum_list_phase_update [OF close(2), of "(actors s ! i)\<lparr>phase := Exited\<rparr>"] close
  show ?thesis by (simp add: steps_left_def)
next
  case (int_call j e c)
  have "map phase_rank ((actors s)[j := (actors s ! j)\<lparr>interrupted := True\<rparr>]) = map phase_rank (actors s)"
  proof (cases "j < length (actors s)")
    case True
    then have "(map phase_rank (actors s))[j := phase_rank (actors s ! j)] = map phase_rank (actors s)"
      by (metis list_update_id nth_map)
    then show ?thesis by (simp add: map_update)
  next
    case False
    then show ?thesis by (simp add: list_update_beyond)
  qed
  with int_call show ?thesis by (simp add: steps_left_def)
next
  case (int_ret e c)
  then show ?thesis by (cases c) (simp_all add: steps_left_def)
qed (simp_all add: steps_left_def)

lemma group_inv_actor_step:
  assumes inv: "group_inv ks s"
    and len: "length as = length (actors s)"
    and kinds: "\<forall>j<length as. kind (as ! j) = kind (actors s ! j)"
    and ints: "\<forall>j<length as. interrupted (as ! j) = interrupted (actors s ! j)"
    and ex: "\<forall>j<length as. phase (actors s ! j) = Exited \<longrightarrow> phase (as ! j) = Exited"
    and srv: "\<forall>j<length as. (\<exists>r. kind (as ! j) = Service r) \<and> phase (as ! j) \<noteq> Running \<longrightarrow> interrupted (as ! j)"
  shows "group_inv ks (s\<lparr>actors := as, errc := c\<rparr>)"
proof -
  from len kinds have mk: "map kind as = map kind (actors s)"
    by (intro nth_equalityI) simp_all
  show ?thesis
  proof (cases "pc s")
    case (Starting p)
    with inv len mk ints srv show ?thesis
      by (simp add: group_inv_def Let_def)
  next
    case (RunLoop i)
    with inv len mk ints srv ex show ?thesis
      by (simp add: group_inv_def Let_def)
  next
    case (Interrupting j e c)
    with inv len mk ints srv ex show ?thesis
      by (simp add: group_inv_def Let_def)
  next
    case (Waiting j e c)
    with inv len mk ints srv ex show ?thesis
      by (simp add: group_inv_def Let_def)
  next
    case (StartReturned e)
    with inv len mk ints srv ex show ?thesis
      by (simp add: group_inv_def Let_def)
  next
    case (RunReturned r)
    with inv len mk ints srv ex show ?thesis
      by (simp add: group_inv_def Let_def)
  qed
qed

lemma interrupts_down_none: "interrupts_down n n e = []"
  by (simp add: interrupts_down_def)

lemma interrupts_down_Suc:
  "j < n \<Longrightarrow> interrupts_down n j e = interrupts_down n (Suc j) e @ [Interrupt j e, Joined j]"
  by (simp add: interrupts_down_def upt_conv_Cons)

lemma group_inv_start_err: assumes inv: "group_inv ks s" and "pc s = Starting (k # p)" "errc s = Some e"
  shows "group_inv ks (s\<lparr>errc := None, pc := Interrupting (length (actors s)) e FromStart\<rparr>)"
  using assms by (auto simp: group_inv_def Let_def interrupts_down_none)

lemma group_inv_start_ok: assumes inv: "group_inv ks s" and "pc s = Starting (k # p)" "errc s = None"
  shows "group_inv ks (s\<lparr>actors := actors s @ [\<lparr>kind = k, phase = Running, interrupted = False\<rparr>],
              pc := Starting p\<rparr>)"
  using assms by (auto simp: group_inv_def Let_def nth_append)

lemma group_inv_run_enter: assumes inv: "group_inv ks s" and "pc s = Starting []"
  shows "group_inv ks (s\<lparr>pc := RunLoop 0\<rparr>)"
  using assms by (auto simp: group_inv_def Let_def)

lemma group_inv_run_err: assumes inv: "group_inv ks s" and "pc s = RunLoop i" "i < length (actors s)" "errc s = Some e"
  shows "group_inv ks (s\<lparr>errc := None, pc := Interrupting (length (actors s)) e FromRun\<rparr>)"
  using assms by (auto simp: group_inv_def Let_def interrupts_down_none)

lemma group_inv_run_done: assumes inv: "group_inv ks s" and "pc s = RunLoop i" "i < length (actors s)" "phase (actors s ! i) = Exited"
  shows "group_inv ks (s\<lparr>pc := RunLoop (Suc i)\<rparr>)"
  using assms by (auto simp: group_inv_def Let_def less_Suc_eq)

lemma group_inv_run_last: assumes inv: "group_inv ks s" and "pc s = RunLoop (length (actors s))"
  shows "group_inv ks (s\<lparr>errc := None, pc := RunReturned (errc s)\<rparr>)"
  using assms by (auto simp: group_inv_def Let_def)

lemma nth_update_at:
  "(xs[j := y]) ! i = (if i = j \<and> j < length xs then y else xs ! i)"
proof (cases "j < length xs")
  case True
  then show ?thesis by (auto simp: nth_list_update)
next
  case False
  then show ?thesis by (simp add: list_update_beyond)
qed

lemma group_inv_int_call:
  assumes inv: "group_inv ks s" and pc: "pc s = Interrupting (Suc j) e c"
  shows "group_inv ks (s\<lparr>actors := (actors s)[j := (actors s ! j)\<lparr>interrupted := True\<rparr>],
              trace := trace s @ [Interrupt j e], pc := Waiting j e c\<rparr>)"
proof -
  let ?n = "length (actors s)"
  let ?as = "(actors s)[j := (actors s ! j)\<lparr>interrupted := True\<rparr>]"
  from inv pc have srv: "\<forall>i<?n. (\<exists>r. kind (actors s ! i) = Service r) \<and> phase (actors s ! i) \<noteq> Running \<longrightarrow>
         interrupted (actors s ! i)"
    and pre: "\<exists>p. map kind (actors s) @ p = ks"
    and run: "c = FromRun \<longrightarrow> map kind (actors s) = ks"
    and j: "Suc j \<le> ?n"
    and tr: "trace s = interrupts_down ?n (Suc j) e"
    and ex: "\<forall>i<?n. Suc j \<le> i \<longrightarrow> phase (actors s ! i) = Exited"
    and int: "\<forall>i<?n. interrupted (actors s ! i) \<longleftrightarrow> Suc j \<le> i"
    by (simp_all add: group_inv_def Let_def)
  have mk: "map kind ?as = map kind (actors s)"
    by (rule nth_equalityI) (simp_all add: nth_update_at)
  have ph: "\<And>i. i < ?n \<Longrightarrow> phase (?as ! i) = phase (actors s ! i)"
    by (simp add: nth_update_at)
  have kd: "\<And>i. i < ?n \<Longrightarrow> kind (?as ! i) = kind (actors s ! i)"
    by (simp add: nth_update_at)
  have it: "\<And>i. i < ?n \<Longrightarrow> interrupted (?as ! i) \<longleftrightarrow> j \<le> i"
    using int j by (auto simp: nth_update_at)
  have srv': "\<forall>i<?n. (\<exists>r. kind (?as ! i) = Service r) \<and> phase (?as ! i) \<noteq> Running \<longrightarrow>
         interrupted (?as ! i)"
  proof (intro allI impI)
    fix i assume i: "i < ?n" and a: "(\<exists>r. kind (?as ! i) = Service r) \<and> phase (?as ! i) \<noteq> Running"
    with srv ph kd have "interrupted (actors s ! i)" by simp
    then show "interrupted (?as ! i)" by (simp add: nth_update_at)
  qed
  from ex ph have ex': "\<forall>i<?n. j < i \<longrightarrow> phase (?as ! i) = Exited"
    by simp
  from j have j': "j < ?n" by simp
  show ?thesis
    unfolding group_inv_def Let_def
    using srv' pre run j' tr ex' it mk by simp
qed

lemma group_inv_int_wait:
  assumes inv: "group_inv ks s" and pc: "pc s = Waiting j e c" and jn: "j < length (actors s)"
    and ph: "phase (actors s ! j) = Exited"
  shows "group_inv ks (s\<lparr>trace := trace s @ [Joined j], pc := Interrupting j e c\<rparr>)"
proof -
  let ?n = "length (actors s)"
  from inv pc have srv: "\<forall>i<?n. (\<exists>r. kind (actors s ! i) = Service r) \<and> phase (actors s ! i) \<noteq> Running \<longrightarrow>
         interrupted (actors s ! i)"
    and pre: "\<exists>p. map kind (actors s) @ p = ks"
    and run: "c = FromRun \<longrightarrow> map kind (actors s) = ks"
    and tr: "trace s = interrupts_down ?n (Suc j) e @ [Interrupt j e]"
    and ex: "\<forall>i<?n. j < i \<longrightarrow> phase (actors s ! i) = Exited"
    and int: "\<forall>i<?n. interrupted (actors s ! i) \<longleftrightarrow> j \<le> i"
    by (simp_all add: group_inv_def Let_def)
  from tr jn have tr': "trace s @ [Joined j] = interrupts_down ?n j e"
    by (simp add: interrupts_down_Suc)
  have ex': "\<forall>i<?n. j \<le> i \<longrightarrow> phase (actors s ! i) = Exited"
  proof (intro allI impI)
    fix i assume "i < ?n" "j \<le> i"
    with ex ph show "phase (actors s ! i) = Exited"
      by (cases "i = j") simp_all
  qed
  from jn have "j \<le> ?n" by simp
  then show ?thesis
    unfolding group_inv_def Let_def
    using srv pre run tr' ex' int by simp
qed

lemma group_inv_int_ret:
  assumes inv: "group_inv ks s" and pc: "pc s = Interrupting 0 e c"
  shows "group_inv ks (s\<lparr>pc := (case c of FromStart \<Rightarrow> StartReturned e | FromRun \<Rightarrow> RunReturned (Some e))\<rparr>)"
proof -
  let ?n = "length (actors s)"
  from inv pc have srv: "\<forall>i<?n. (\<exists>r. kind (actors s ! i) = Service r) \<and> phase (actors s ! i) \<noteq> Running \<longrightarrow>
         interrupted (actors s ! i)"
    and pre: "\<exists>p. map kind (actors s) @ p = ks"
    and run: "c = FromRun \<longrightarrow> map kind (actors s) = ks"
    and tr: "trace s = interrupts_down ?n 0 e"
    and ex: "\<forall>i<?n. phase (actors s ! i) = Exited"
    by (simp_all add: group_inv_def Let_def)
  show ?thesis
  proof (cases c)
    case FromStart
    then show ?thesis
      unfolding group_inv_def Let_def
      using srv pre tr ex by simp
  next
    case FromRun
    then show ?thesis
      unfolding group_inv_def Let_def
      using srv pre run tr ex by simp
  qed
qed

lemma group_inv_initial: "group_inv ks (initial ks)"
  by (simp add: group_inv_def initial_def)

lemma group_inv_step:
  assumes "step s t" and inv: "group_inv ks s"
  shows "group_inv ks t"
  using assms(1)
proof (cases rule: step.cases)
  case (finish i)
  let ?as = "(actors s)[i := (actors s ! i)\<lparr>phase := Sent\<rparr>]"
  have "group_inv ks (s\<lparr>actors := ?as, errc := deliver (returns (kind (actors s ! i))) (errc s)\<rparr>)"
  proof (rule group_inv_actor_step [OF inv])
    show "\<forall>j<length ?as. (\<exists>r. kind (?as ! j) = Service r) \<and> phase (?as ! j) \<noteq> Running \<longrightarrow>
        interrupted (?as ! j)"
      using inv finish(2-4) by (auto simp: group_inv_def Let_def nth_list_update)
  qed (use finish(2,3) in \<open>auto simp: nth_list_update\<close>)
  with finish(1) show ?thesis by simp
next
  case (close i)
  let ?as = "(actors s)[i := (actors s ! i)\<lparr>phase := Exited\<rparr>]"
  have "group_inv ks (s\<lparr>actors := ?as, errc := errc s\<rparr>)"
  proof (rule group_inv_actor_step [OF inv])
    show "\<forall>j<length ?as. (\<exists>r. kind (?as ! j) = Service r) \<and> phase (?as ! j) \<noteq> Running \<longrightarrow>
        interrupted (?as ! j)"
      using inv close(2,3) by (auto simp: group_inv_def Let_def nth_list_update)
  qed (use close(2,3) in \<open>auto simp: nth_list_update\<close>)
  with close(1) show ?thesis by simp
next
  case (start_err k p e)
  with inv show ?thesis by (simp add: group_inv_start_err)
next
  case (start_ok k p)
  with inv show ?thesis by (simp add: group_inv_start_ok)
next
  case run_enter
  with inv show ?thesis by (simp add: group_inv_run_enter)
next
  case (run_err i e)
  with inv show ?thesis by (simp add: group_inv_run_err)
next
  case (run_done i)
  with inv show ?thesis by (simp add: group_inv_run_done)
next
  case run_last
  with inv show ?thesis by (simp add: group_inv_run_last)
next
  case (int_call j e c)
  with inv show ?thesis by (simp add: group_inv_int_call)
next
  case (int_wait j e c)
  with inv show ?thesis by (simp add: group_inv_int_wait)
next
  case (int_ret e c)
  with inv show ?thesis by (simp add: group_inv_int_ret)
qed

lemma group_inv_steps:
  assumes "steps s t" and "group_inv ks s"
  shows "group_inv ks t"
  using assms
proof (induction rule: steps.induct)
  case (here s)
  then show ?case .
next
  case (further s t u)
  then show ?case by (blast intro: group_inv_step)
qed

lemma group_inv_reachable:
  "steps (initial ks) s \<Longrightarrow> group_inv ks s"
  by (rule group_inv_steps [OF _ group_inv_initial])

lemma steps_trans:
  assumes "steps t u" and "steps s t"
  shows "steps s u"
  using assms
proof (induction rule: steps.induct)
  case (here t)
  then show ?case .
next
  case (further t u v)
  then show ?case by (blast intro: steps.further)
qed

text \<open>Progress of the interrupt loop.\<close>

lemma interrupt_progress:
  assumes inv: "group_inv ks s"
    and pc: "(\<exists>j e c. pc s = Interrupting j e c) \<or> (\<exists>j e c. pc s = Waiting j e c)"
  shows "\<exists>t. step s t"
proof -
  from pc consider (I0) e c where "pc s = Interrupting 0 e c"
    | (IS) j e c where "pc s = Interrupting (Suc j) e c"
    | (W) j e c where "pc s = Waiting j e c"
  proof -
    assume a: "\<And>e c. pc s = Interrupting 0 e c \<Longrightarrow> thesis"
      "\<And>j e c. pc s = Interrupting (Suc j) e c \<Longrightarrow> thesis"
      "\<And>j e c. pc s = Waiting j e c \<Longrightarrow> thesis"
    from pc show thesis
    proof (elim disjE exE)
      fix j e c assume "pc s = Interrupting j e c"
      with a(1,2) show thesis by (cases j) blast+
    next
      fix j e c assume "pc s = Waiting j e c"
      with a(3) show thesis by blast
    qed
  qed
  then show ?thesis
  proof cases
    case I0
    then show ?thesis by (blast intro: step.int_ret)
  next
    case IS
    then show ?thesis by (blast intro: step.int_call)
  next
    case W
    with inv have j: "j < length (actors s)" and int: "interrupted (actors s ! j)"
      by (simp_all add: group_inv_def Let_def)
    show ?thesis
    proof (cases "phase (actors s ! j)")
      case Running
      from int have "can_return (actors s ! j)"
        by (simp split: kind.splits)
      with j Running show ?thesis by (blast intro: step.finish)
    next
      case Sent
      with j show ?thesis by (blast intro: step.close)
    next
      case Exited
      with W j show ?thesis by (blast intro: step.int_wait)
    qed
  qed
qed

lemma kind_of_actor:
  assumes "group_inv ks s" and "i < length (actors s)"
  shows "kind (actors s ! i) = ks ! i" and "i < length ks"
proof -
  from assms(1) obtain p where p: "map kind (actors s) @ p = ks"
    by (auto simp: group_inv_def Let_def)
  from assms(2) have "(map kind (actors s) @ p) ! i = kind (actors s ! i)"
    by (simp add: nth_append)
  with p show "kind (actors s ! i) = ks ! i" by simp
  from p assms(2) show "i < length ks" by auto
qed

lemma not_interrupted_before_run:
  assumes "group_inv ks s" and "(\<exists>p. pc s = Starting p) \<or> (\<exists>i. pc s = RunLoop i)"
    and "i < length (actors s)"
  shows "\<not> interrupted (actors s ! i)"
  using assms by (auto simp: group_inv_def Let_def)

lemma single_failure_inv_before_run:
  assumes "(\<exists>p. pc s = Starting p) \<or> (\<exists>i. pc s = RunLoop i)"
  shows "single_failure_inv k E s \<longleftrightarrow>
     errc s = (if k < length (actors s) \<and> phase (actors s ! k) \<noteq> Running then Some E else None)"
  using assms by (auto simp: single_failure_inv_def)

lemma single_failure_inv_after:
  assumes "\<not> ((\<exists>p. pc s = Starting p) \<or> (\<exists>i. pc s = RunLoop i))" and "pc t = pc s"
  shows "single_failure_inv k E t \<longleftrightarrow> single_failure_inv k E s"
  using assms by (cases "pc s") (auto simp: single_failure_inv_def)

lemma single_failure_finish:
  assumes inv: "group_inv ks s" and sf: "single_failure_inv k E s"
    and ks: "k < length ks" "ks ! k = Fails E" "\<forall>i<length ks. i \<noteq> k \<longrightarrow> (\<forall>e. ks ! i \<noteq> Fails e)"
    and i: "i < length (actors s)" "phase (actors s ! i) = Running" "can_return (actors s ! i)"
  shows "single_failure_inv k E (s\<lparr>actors := (actors s)[i := (actors s ! i)\<lparr>phase := Sent\<rparr>],
              errc := deliver (returns (kind (actors s ! i))) (errc s)\<rparr>)"
    (is "single_failure_inv k E ?t")
proof (cases "(\<exists>p. pc s = Starting p) \<or> (\<exists>i. pc s = RunLoop i)")
  case True
  then have before: "(\<exists>p. pc ?t = Starting p) \<or> (\<exists>i. pc ?t = RunLoop i)" by simp
  from sf True have e: "errc s =
      (if k < length (actors s) \<and> phase (actors s ! k) \<noteq> Running then Some E else None)"
    by (simp add: single_failure_inv_before_run)
  from kind_of_actor [OF inv i(1)] have kd: "kind (actors s ! i) = ks ! i" "i < length ks" .
  from not_interrupted_before_run [OF inv True i(1)] have ni: "\<not> interrupted (actors s ! i)" .
  show ?thesis
  proof (cases "i = k")
    case True
    with kd ks e i have "deliver (returns (kind (actors s ! i))) (errc s) = Some E"
      by simp
    with True i \<open>(\<exists>p. pc s = Starting p) \<or> (\<exists>i. pc s = RunLoop i)\<close> show ?thesis
      by (auto simp: single_failure_inv_def)
  next
    case False
    with kd ks have nf: "\<forall>e. kind (actors s ! i) \<noteq> Fails e" by simp
    with i(3) ni have "kind (actors s ! i) = Task"
      by (cases "kind (actors s ! i)") simp_all
    then have "deliver (returns (kind (actors s ! i))) (errc s) = errc s" by simp
    with False e i \<open>(\<exists>p. pc s = Starting p) \<or> (\<exists>i. pc s = RunLoop i)\<close> show ?thesis
      by (auto simp: single_failure_inv_def nth_list_update)
  qed
next
  case False
  from single_failure_inv_after [OF False, of ?t] sf show ?thesis by simp
qed

lemma single_failure_close:
  assumes sf: "single_failure_inv k E s"
    and i: "i < length (actors s)" "phase (actors s ! i) = Sent"
  shows "single_failure_inv k E (s\<lparr>actors := (actors s)[i := (actors s ! i)\<lparr>phase := Exited\<rparr>]\<rparr>)"
    (is "single_failure_inv k E ?t")
proof (cases "(\<exists>p. pc s = Starting p) \<or> (\<exists>i. pc s = RunLoop i)")
  case True
  then have before: "(\<exists>p. pc ?t = Starting p) \<or> (\<exists>i. pc ?t = RunLoop i)" by simp
  from sf True have e: "errc s =
      (if k < length (actors s) \<and> phase (actors s ! k) \<noteq> Running then Some E else None)"
    by (simp add: single_failure_inv_before_run)
  with i True show ?thesis
    by (cases "i = k") (auto simp: single_failure_inv_def nth_list_update)
next
  case False
  from single_failure_inv_after [OF False, of ?t] sf show ?thesis by simp
qed

lemma single_failure_step:
  assumes "step s t" and inv: "group_inv ks s" and sf: "single_failure_inv k E s"
    and ks: "k < length ks" "ks ! k = Fails E" "\<forall>i<length ks. i \<noteq> k \<longrightarrow> (\<forall>e. ks ! i \<noteq> Fails e)"
  shows "single_failure_inv k E t"
  using assms(1)
proof (cases rule: step.cases)
  case (finish i)
  with single_failure_finish [OF inv sf ks] show ?thesis by simp
next
  case (close i)
  with single_failure_close [OF sf] show ?thesis by simp
next
  case (start_err a p e)
  with sf show ?thesis
    by (auto simp: single_failure_inv_def split: if_splits)
next
  case (start_ok a p)
  with sf show ?thesis
    by (auto simp: single_failure_inv_def nth_append split: if_splits)
next
  case run_enter
  with sf show ?thesis
    by (simp add: single_failure_inv_def)
next
  case (run_err i e)
  with sf show ?thesis
    by (auto simp: single_failure_inv_def split: if_splits)
next
  case (run_done i)
  with sf show ?thesis
    by (simp add: single_failure_inv_def)
next
  case run_last
  with inv have mk: "map kind (actors s) = ks"
    and ex: "\<forall>j<length (actors s). phase (actors s ! j) = Exited"
    by (simp_all add: group_inv_def Let_def)
  from mk ks(1) have "k < length (actors s)" by auto
  with ex have "phase (actors s ! k) = Exited" by simp
  with run_last sf \<open>k < length (actors s)\<close> show ?thesis
    by (simp add: single_failure_inv_def)
next
  case (int_call j e c)
  with sf show ?thesis
    by (simp add: single_failure_inv_def)
next
  case (int_wait j e c)
  with sf show ?thesis
    by (simp add: single_failure_inv_def)
next
  case (int_ret e c)
  with sf show ?thesis
    by (cases c) (simp_all add: single_failure_inv_def)
qed

lemma single_failure_reachable:
  assumes "steps s t" and "s = initial ks"
    and ks: "k < length ks" "ks ! k = Fails E" "\<forall>i<length ks. i \<noteq> k \<longrightarrow> (\<forall>e. ks ! i \<noteq> Fails e)"
  shows "group_inv ks t \<and> single_failure_inv k E t"
  using assms(1,2)
proof (induction rule: steps.induct)
  case (here s)
  then show ?case
    by (simp add: group_inv_initial) (simp add: single_failure_inv_def initial_def)
next
  case (further s t u)
  then have "group_inv ks t" "single_failure_inv k E t" by simp_all
  with further(2) ks show ?case
    by (blast intro: group_inv_step single_failure_step)
qed

lemma single_failure_progress:
  assumes inv: "group_inv ks s" and sf: "single_failure_inv k E s"
    and ks: "k < length ks" "ks ! k = Fails E"
    and nr: "\<not> returned s"
  shows "\<exists>t. step s t"
proof (cases "pc s")
  case (Starting p)
  show ?thesis
  proof (cases p)
    case Nil
    with Starting show ?thesis by (blast intro: step.run_enter)
  next
    case (Cons a p')
    with Starting show ?thesis
      by (cases "errc s") (blast intro: step.start_ok step.start_err)+
  qed
next
  case (RunLoop i)
  with inv have mk: "map kind (actors s) = ks" and i: "i \<le> length (actors s)"
    by (simp_all add: group_inv_def Let_def)
  show ?thesis
  proof (cases "i = length (actors s)")
    case True
    with RunLoop show ?thesis by (blast intro: step.run_last)
  next
    case False
    with i have lt: "i < length (actors s)" by simp
    show ?thesis
    proof (cases "errc s")
      case (Some e)
      with RunLoop lt show ?thesis by (blast intro: step.run_err)
    next
      case None
      from mk ks(1) have kn: "k < length (actors s)" by auto
      from sf RunLoop None kn have run: "phase (actors s ! k) = Running"
        by (auto simp: single_failure_inv_def split: if_splits)
      from kind_of_actor(1) [OF inv kn] ks(2) have "can_return (actors s ! k)"
        by simp
      with kn run show ?thesis by (blast intro: step.finish)
    qed
  qed
next
  case (Interrupting j e c)
  with inv show ?thesis by (blast intro: interrupt_progress)
next
  case (Waiting j e c)
  with inv show ?thesis by (blast intro: interrupt_progress)
next
  case (StartReturned e)
  with nr show ?thesis by simp
next
  case (RunReturned r)
  with nr show ?thesis by simp
qed

lemma filter_signals:
  "filter (\<lambda>ev. signal_actor ev \<noteq> k) (concat (map (\<lambda>i. [Interrupt i e, Joined i]) xs)) =
   concat (map (\<lambda>i. [Interrupt i e, Joined i]) (filter (\<lambda>i. i \<noteq> k) xs))"
  by (induction xs) simp_all

lemma filter_interrupts_down:
  "filter (\<lambda>ev. signal_actor ev \<noteq> k) (interrupts_down n 0 e) =
   concat (map (\<lambda>i. [Interrupt i e, Joined i]) (rev (filter (\<lambda>i. i \<noteq> k) [0..<n])))"
  by (simp add: interrupts_down_def filter_signals rev_filter)

lemma no_failure_step:
  assumes "step s t" and inv: "group_inv ks s" and nf: "no_failure_inv s"
    and ks: "\<forall>a\<in>set ks. \<forall>e. a \<noteq> Fails e"
  shows "no_failure_inv t"
  using assms(1)
proof (cases rule: step.cases)
  case (finish i)
  from kind_of_actor [OF inv finish(2)] ks have notf: "\<forall>e. kind (actors s ! i) \<noteq> Fails e"
    by (metis nth_mem)
  have ni: "\<not> interrupted (actors s ! i)"
  proof (cases "pc s")
    case (RunReturned r)
    with nf have "r = None" by (simp add: no_failure_inv_def)
    with inv RunReturned finish(2) show ?thesis
      by (simp add: group_inv_def Let_def)
  qed (use nf inv finish(2) in \<open>simp_all add: no_failure_inv_def group_inv_def Let_def\<close>)
  with notf finish(4) have "kind (actors s ! i) = Task"
    by (cases "kind (actors s ! i)") simp_all
  with finish(1) nf show ?thesis
    by (cases "pc s") (simp_all add: no_failure_inv_def)
next
  case (close i)
  with nf show ?thesis
    by (cases "pc s") (simp_all add: no_failure_inv_def)
next
  case (int_ret e c)
  with nf show ?thesis by (simp add: no_failure_inv_def)
qed (use nf in \<open>simp_all add: no_failure_inv_def\<close>)

lemma no_failure_reachable:
  assumes "steps s t" and "s = initial ks" and ks: "\<forall>a\<in>set ks. \<forall>e. a \<noteq> Fails e"
  shows "group_inv ks t \<and> no_failure_inv t"
  using assms(1,2)
proof (induction rule: steps.induct)
  case (here s)
  then show ?case
    by (simp add: group_inv_initial) (simp add: no_failure_inv_def initial_def)
next
  case (further s t u)
  then have "group_inv ks t" "no_failure_inv t" by simp_all
  with further(2) ks show ?case
    by (blast intro: group_inv_step no_failure_step)
qed

lemma map_kind_update:
  "map kind (xs[i := (xs ! i)\<lparr>phase := ph\<rparr>]) = map kind xs"
  "map kind (xs[i := (xs ! i)\<lparr>interrupted := b\<rparr>]) = map kind xs"
  by (rule nth_equalityI; simp add: nth_update_at)+

lemma start_inv_step:
  assumes "step s t" and si: "start_inv s0 E s"
  shows "start_inv s0 E t"
  using assms(1)
proof (cases rule: step.cases)
  case (finish i)
  with si show ?thesis
    by (cases "pc s"; cases "returns (kind (actors s ! i))")
      (simp_all add: start_inv_def map_kind_update)
next
  case (close i)
  with si show ?thesis
    by (cases "pc s") (simp_all add: start_inv_def map_kind_update)
next
  case (int_call j e c)
  with si show ?thesis
    by (simp add: start_inv_def map_kind_update)
next
  case (int_ret e c)
  with si show ?thesis by (simp add: start_inv_def)
qed (use si in \<open>simp_all add: start_inv_def\<close>)

lemma start_inv_steps:
  assumes "steps s t" and "start_inv s0 E s"
  shows "start_inv s0 E t"
  using assms
proof (induction rule: steps.induct)
  case (here s)
  then show ?case .
next
  case (further s t u)
  then show ?case by (blast intro: start_inv_step)
qed

lemma start_inv_progress:
  assumes inv: "group_inv ks s" and si: "start_inv s0 E s" and nr: "\<not> returned s"
  shows "\<exists>t. step s t"
proof (cases "pc s")
  case (Starting p)
  with si obtain a p' where "p = a # p'" "errc s = Some E"
    by (cases p) (simp_all add: start_inv_def)
  with Starting show ?thesis by (blast intro: step.start_err)
next
  case (RunLoop i)
  with si show ?thesis by (simp add: start_inv_def)
next
  case (Interrupting j e c)
  with inv show ?thesis by (blast intro: interrupt_progress)
next
  case (Waiting j e c)
  with inv show ?thesis by (blast intro: interrupt_progress)
next
  case (StartReturned e)
  with nr show ?thesis by simp
next
  case (RunReturned r)
  with nr show ?thesis by simp
qed

text \<open>
  C3. Let the actor \<open>k\<close> be the only one whose \<open>execute\<close> returns a non-nil error,
  \<open>E\<close>, let every other actor return only once interrupted, and let \<open>Run\<close> be called
  once every \<open>Start\<close> has returned nil, as the caller of \<open>step\<close> does. In every Group
  reached from the zero Group: some goroutine can take a step until \<open>Start\<close> or \<open>Run\<close>
  has returned, and every step lowers the bound \<open>steps_left\<close>, so the calling goroutine
  returns; a \<open>Start\<close> that returns an error returns \<open>E\<close>, and \<open>Run\<close> is then not
  called; when \<open>Run\<close> has returned, every actor of the list has been started, \<open>Run\<close>
  has returned \<open>E\<close>, every started actor has exited, and the interrupt functions of the
  other actors have been invoked in the reverse order of their \<open>Start\<close> calls, each
  followed by the wait for that actor before the next. In a Group none of whose actors
  returns a non-nil error of its own accord, no interrupt function is ever invoked: an actor
  that returns nil sends nothing to \<open>errc\<close>.
\<close>

theorem Run_single_failure:
  assumes "k < length ks" and "ks ! k = Fails E"
    and "\<forall>i<length ks. i \<noteq> k \<longrightarrow> (\<exists>r. ks ! i = Service r)"
    and "steps (initial ks) s"
  shows "(\<not> returned s \<longrightarrow> (\<exists>t. step s t)) \<and>
         (\<forall>t. step s t \<longrightarrow> steps_left t < steps_left s) \<and>
         (\<forall>e. pc s = StartReturned e \<longrightarrow> e = E) \<and>
         (\<forall>r. pc s = RunReturned r \<longrightarrow>
            r = Some E \<and> (\<forall>a\<in>set (actors s). phase a = Exited) \<and> map kind (actors s) = ks \<and>
            filter (\<lambda>ev. signal_actor ev \<noteq> k) (trace s) =
              concat (map (\<lambda>i. [Interrupt i E, Joined i]) (rev (filter (\<lambda>i. i \<noteq> k) [0..<length ks])))) \<and>
         (\<forall>ks' s'. (\<forall>a\<in>set ks'. \<forall>e. a \<noteq> Fails e) \<and> steps (initial ks') s' \<longrightarrow>
            trace s' = [] \<and> errc s' = None \<and> (\<forall>e. pc s' \<noteq> RunReturned (Some e)))"
proof -
  from assms(3) have others: "\<forall>i<length ks. i \<noteq> k \<longrightarrow> (\<forall>e. ks ! i \<noteq> Fails e)"
    by auto
  from single_failure_reachable [OF assms(4) refl assms(1,2) others]
  have inv: "group_inv ks s" and sf: "single_failure_inv k E s"
    by simp_all
  have progress: "\<not> returned s \<longrightarrow> (\<exists>t. step s t)"
    using single_failure_progress [OF inv sf assms(1,2)] by blast
  have bound: "\<forall>t. step s t \<longrightarrow> steps_left t < steps_left s"
    by (blast intro: step_decreases)
  have start: "\<forall>e. pc s = StartReturned e \<longrightarrow> e = E"
    using sf by (auto simp: single_failure_inv_def)
  have run: "\<forall>r. pc s = RunReturned r \<longrightarrow>
      r = Some E \<and> (\<forall>a\<in>set (actors s). phase a = Exited) \<and> map kind (actors s) = ks \<and>
      filter (\<lambda>ev. signal_actor ev \<noteq> k) (trace s) =
        concat (map (\<lambda>i. [Interrupt i E, Joined i]) (rev (filter (\<lambda>i. i \<noteq> k) [0..<length ks])))"
  proof (intro allI impI)
    fix r assume pc: "pc s = RunReturned r"
    let ?n = "length (actors s)"
    from sf pc have r: "r = Some E"
      by (simp add: single_failure_inv_def)
    from inv pc have mk: "map kind (actors s) = ks"
      and ex: "\<forall>i<?n. phase (actors s ! i) = Exited"
      and tr: "trace s = [] \<and> (\<forall>i<?n. \<not> interrupted (actors s ! i)) \<or>
               (\<exists>e. r = Some e \<and> trace s = interrupts_down ?n 0 e)"
      and srv: "\<forall>i<?n. (\<exists>r. kind (actors s ! i) = Service r) \<and> phase (actors s ! i) \<noteq> Running \<longrightarrow>
         interrupted (actors s ! i)"
      by (simp_all add: group_inv_def Let_def)
    from mk have n: "?n = length ks" by auto
    from ex have all: "\<forall>a\<in>set (actors s). phase a = Exited"
      by (auto simp: in_set_conv_nth)
    have "filter (\<lambda>ev. signal_actor ev \<noteq> k) (trace s) =
        concat (map (\<lambda>i. [Interrupt i E, Joined i]) (rev (filter (\<lambda>i. i \<noteq> k) [0..<length ks])))"
      using tr
    proof
      assume quiet: "trace s = [] \<and> (\<forall>i<?n. \<not> interrupted (actors s ! i))"
      have "filter (\<lambda>i. i \<noteq> k) [0..<length ks] = []"
      proof (rule ccontr)
        assume "filter (\<lambda>i. i \<noteq> k) [0..<length ks] \<noteq> []"
        then obtain i where i: "i < length ks" "i \<noteq> k"
          by (auto simp: filter_empty_conv)
        with assms(3) obtain r' where "ks ! i = Service r'" by blast
        with kind_of_actor(1) [OF inv] i n have "kind (actors s ! i) = Service r'" by simp
        moreover from ex i n have "phase (actors s ! i) \<noteq> Running" by simp
        ultimately have "interrupted (actors s ! i)" using srv i n by simp
        with quiet i n show False by simp
      qed
      with quiet show ?thesis by simp
    next
      assume "\<exists>e. r = Some e \<and> trace s = interrupts_down ?n 0 e"
      with r have "trace s = interrupts_down ?n 0 E" by auto
      with n show ?thesis by (simp add: filter_interrupts_down)
    qed
    with r all mk show "r = Some E \<and> (\<forall>a\<in>set (actors s). phase a = Exited) \<and> map kind (actors s) = ks \<and>
      filter (\<lambda>ev. signal_actor ev \<noteq> k) (trace s) =
        concat (map (\<lambda>i. [Interrupt i E, Joined i]) (rev (filter (\<lambda>i. i \<noteq> k) [0..<length ks])))"
      by simp
  qed
  have quiet: "\<forall>ks' s'. (\<forall>a\<in>set ks'. \<forall>e. a \<noteq> Fails e) \<and> steps (initial ks') s' \<longrightarrow>
      trace s' = [] \<and> errc s' = None \<and> (\<forall>e. pc s' \<noteq> RunReturned (Some e))"
  proof (intro allI impI)
    fix ks' s' assume a: "(\<forall>a\<in>set ks'. \<forall>e. a \<noteq> Fails e) \<and> steps (initial ks') s'"
    then have "no_failure_inv s'"
      using no_failure_reachable [of "initial ks'" s' ks'] by simp
    then show "trace s' = [] \<and> errc s' = None \<and> (\<forall>e. pc s' \<noteq> RunReturned (Some e))"
      by (auto simp: no_failure_inv_def)
  qed
  from progress bound start run quiet show ?thesis by blast
qed

theorem Run_single_failure_witness:
  "steps (initial [Fails (ErrorString ''interrupt''), Service None])
     \<lparr>actors = [\<lparr>kind = Fails (ErrorString ''interrupt''), phase = Exited, interrupted = True\<rparr>,
                 \<lparr>kind = Service None, phase = Exited, interrupted = True\<rparr>],
      errc = None, pc = RunReturned (Some (ErrorString ''interrupt'')),
      trace = [Interrupt 1 (ErrorString ''interrupt''), Joined 1,
               Interrupt 0 (ErrorString ''interrupt''), Joined 0]\<rparr> \<and>
   filter (\<lambda>ev. signal_actor ev \<noteq> 0)
     [Interrupt 1 (ErrorString ''interrupt''), Joined 1,
      Interrupt 0 (ErrorString ''interrupt''), Joined 0] =
     [Interrupt 1 (ErrorString ''interrupt''), Joined 1]"
proof -
  let ?E = "ErrorString ''interrupt''"
  let ?F = "\<lambda>ph i. \<lparr>kind = Fails ?E, phase = ph, interrupted = i\<rparr>"
  let ?S = "\<lambda>ph i. \<lparr>kind = Service None, phase = ph, interrupted = i\<rparr>"
  let ?I1 = "Interrupt 1 ?E" and ?I0 = "Interrupt 0 ?E"
  let ?s1 = "\<lparr>actors = [?F Running False], errc = None, pc = Starting [Service None], trace = []\<rparr>"
  let ?s2 = "\<lparr>actors = [?F Running False, ?S Running False], errc = None, pc = Starting [], trace = []\<rparr>"
  let ?s3 = "\<lparr>actors = [?F Running False, ?S Running False], errc = None, pc = RunLoop 0, trace = []\<rparr>"
  let ?s4 = "\<lparr>actors = [?F Sent False, ?S Running False], errc = Some ?E, pc = RunLoop 0, trace = []\<rparr>"
  let ?s5 = "\<lparr>actors = [?F Sent False, ?S Running False], errc = None,
      pc = Interrupting 2 ?E FromRun, trace = []\<rparr>"
  let ?s6 = "\<lparr>actors = [?F Sent False, ?S Running True], errc = None,
      pc = Waiting 1 ?E FromRun, trace = [?I1]\<rparr>"
  let ?s7 = "\<lparr>actors = [?F Sent False, ?S Sent True], errc = None,
      pc = Waiting 1 ?E FromRun, trace = [?I1]\<rparr>"
  let ?s8 = "\<lparr>actors = [?F Sent False, ?S Exited True], errc = None,
      pc = Waiting 1 ?E FromRun, trace = [?I1]\<rparr>"
  let ?s9 = "\<lparr>actors = [?F Sent False, ?S Exited True], errc = None,
      pc = Interrupting 1 ?E FromRun, trace = [?I1, Joined 1]\<rparr>"
  let ?s10 = "\<lparr>actors = [?F Sent True, ?S Exited True], errc = None,
      pc = Waiting 0 ?E FromRun, trace = [?I1, Joined 1, ?I0]\<rparr>"
  let ?s11 = "\<lparr>actors = [?F Exited True, ?S Exited True], errc = None,
      pc = Waiting 0 ?E FromRun, trace = [?I1, Joined 1, ?I0]\<rparr>"
  let ?s12 = "\<lparr>actors = [?F Exited True, ?S Exited True], errc = None,
      pc = Interrupting 0 ?E FromRun, trace = [?I1, Joined 1, ?I0, Joined 0]\<rparr>"
  let ?s13 = "\<lparr>actors = [?F Exited True, ?S Exited True], errc = None,
      pc = RunReturned (Some ?E), trace = [?I1, Joined 1, ?I0, Joined 0]\<rparr>"
  let ?s0 = "\<lparr>actors = [], errc = None, pc = Starting [Fails ?E, Service None], trace = []\<rparr>"
  have 1: "step ?s0 ?s1"
    using step.start_ok [where s = ?s0 and k = "Fails ?E" and ks = "[Service None]"] by simp
  have 2: "step ?s1 ?s2"
    using step.start_ok [where s = ?s1 and k = "Service None" and ks = "[]"] by simp
  have 3: "step ?s2 ?s3"
    using step.run_enter [where s = ?s2] by simp
  have 4: "step ?s3 ?s4"
    using step.finish [where s = ?s3 and i = 0] by simp
  have 5: "step ?s4 ?s5"
    using step.run_err [where s = ?s4 and i = 0 and e = ?E] by (simp add: numeral_2_eq_2)
  have 6: "step ?s5 ?s6"
    using step.int_call [where s = ?s5 and j = 1 and e = ?E and c = FromRun] by simp
  have 7: "step ?s6 ?s7"
    using step.finish [where s = ?s6 and i = 1] by simp
  have 8: "step ?s7 ?s8"
    using step.close [where s = ?s7 and i = 1] by simp
  have 9: "step ?s8 ?s9"
    using step.int_wait [where s = ?s8 and j = 1 and e = ?E and c = FromRun] by simp
  have 10: "step ?s9 ?s10"
    using step.int_call [where s = ?s9 and j = 0 and e = ?E and c = FromRun] by simp
  have 11: "step ?s10 ?s11"
    using step.close [where s = ?s10 and i = 0] by simp
  have 12: "step ?s11 ?s12"
    using step.int_wait [where s = ?s11 and j = 0 and e = ?E and c = FromRun] by simp
  have 13: "step ?s12 ?s13"
    using step.int_ret [where s = ?s12 and e = ?E and c = FromRun] by simp
  note steps.here [of ?s0]
  note steps.further [OF this 1]
  note steps.further [OF this 2]
  note steps.further [OF this 3]
  note steps.further [OF this 4]
  note steps.further [OF this 5]
  note steps.further [OF this 6]
  note steps.further [OF this 7]
  note steps.further [OF this 8]
  note steps.further [OF this 9]
  note steps.further [OF this 10]
  note steps.further [OF this 11]
  note steps.further [OF this 12]
  note steps.further [OF this 13]
  then have run: "steps (initial [Fails ?E, Service None]) ?s13"
    by (simp add: initial_def)
  have ks: "0 < length [Fails ?E, Service None]" "[Fails ?E, Service None] ! 0 = Fails ?E"
    "\<forall>i<length [Fails ?E, Service None]. i \<noteq> 0 \<longrightarrow> (\<exists>r. [Fails ?E, Service None] ! i = Service r)"
    by (simp_all add: less_Suc_eq)
  from Run_single_failure [OF ks run]
  have "filter (\<lambda>ev. signal_actor ev \<noteq> 0) (trace ?s13) =
      concat (map (\<lambda>i. [Interrupt i ?E, Joined i])
        (rev (filter (\<lambda>i. i \<noteq> 0) [0..<length [Fails ?E, Service None]])))"
    by simp
  moreover have "[0..<length [Fails ?E, Service None]] = [0, 1]"
    by (simp add: upt_rec)
  ultimately have "filter (\<lambda>ev. signal_actor ev \<noteq> 0) [?I1, Joined 1, ?I0, Joined 0] = [?I1, Joined 1]"
    by simp
  with run show ?thesis by simp
qed

text \<open>
  Without the condition on \<open>Start\<close> the statement fails. The actors are a service and
  an actor that fails with \<open>E\<close>; a third \<open>Start\<close> finds \<open>E\<close> in \<open>errc\<close>, takes it
  out, interrupts both actors and returns \<open>E\<close>. A call of \<open>Run\<close> on this Group finds
  both \<open>donec\<close> closed and \<open>errc\<close> empty, and returns nil.
\<close>

theorem Run_after_failed_Start_counterexample:
  "steps (initial [Service None, Fails (ErrorString ''interrupt''), Service None])
     \<lparr>actors = [\<lparr>kind = Service None, phase = Exited, interrupted = True\<rparr>,
                 \<lparr>kind = Fails (ErrorString ''interrupt''), phase = Exited, interrupted = True\<rparr>],
      errc = None, pc = StartReturned (ErrorString ''interrupt''),
      trace = [Interrupt 1 (ErrorString ''interrupt''), Joined 1,
               Interrupt 0 (ErrorString ''interrupt''), Joined 0]\<rparr> \<and>
   steps
     (call_Run
       \<lparr>actors = [\<lparr>kind = Service None, phase = Exited, interrupted = True\<rparr>,
                   \<lparr>kind = Fails (ErrorString ''interrupt''), phase = Exited, interrupted = True\<rparr>],
        errc = None, pc = StartReturned (ErrorString ''interrupt''),
        trace = [Interrupt 1 (ErrorString ''interrupt''), Joined 1,
                 Interrupt 0 (ErrorString ''interrupt''), Joined 0]\<rparr>)
     \<lparr>actors = [\<lparr>kind = Service None, phase = Exited, interrupted = True\<rparr>,
                 \<lparr>kind = Fails (ErrorString ''interrupt''), phase = Exited, interrupted = True\<rparr>],
      errc = None, pc = RunReturned None,
      trace = [Interrupt 1 (ErrorString ''interrupt''), Joined 1,
               Interrupt 0 (ErrorString ''interrupt''), Joined 0]\<rparr> \<and>
   RunReturned None \<noteq> RunReturned (Some (ErrorString ''interrupt''))"
proof -
  let ?E = "ErrorString ''interrupt''"
  let ?S = "\<lambda>ph i. \<lparr>kind = Service None, phase = ph, interrupted = i\<rparr>"
  let ?F = "\<lambda>ph i. \<lparr>kind = Fails ?E, phase = ph, interrupted = i\<rparr>"
  let ?I1 = "Interrupt 1 ?E" and ?I0 = "Interrupt 0 ?E"
  let ?s0 = "\<lparr>actors = [], errc = None, pc = Starting [Service None, Fails ?E, Service None],
      trace = []\<rparr>"
  let ?s1 = "\<lparr>actors = [?S Running False], errc = None, pc = Starting [Fails ?E, Service None],
      trace = []\<rparr>"
  let ?s2 = "\<lparr>actors = [?S Running False, ?F Running False], errc = None,
      pc = Starting [Service None], trace = []\<rparr>"
  let ?s3 = "\<lparr>actors = [?S Running False, ?F Sent False], errc = Some ?E,
      pc = Starting [Service None], trace = []\<rparr>"
  let ?s4 = "\<lparr>actors = [?S Running False, ?F Sent False], errc = None,
      pc = Interrupting 2 ?E FromStart, trace = []\<rparr>"
  let ?s5 = "\<lparr>actors = [?S Running False, ?F Sent True], errc = None,
      pc = Waiting 1 ?E FromStart, trace = [?I1]\<rparr>"
  let ?s6 = "\<lparr>actors = [?S Running False, ?F Exited True], errc = None,
      pc = Waiting 1 ?E FromStart, trace = [?I1]\<rparr>"
  let ?s7 = "\<lparr>actors = [?S Running False, ?F Exited True], errc = None,
      pc = Interrupting 1 ?E FromStart, trace = [?I1, Joined 1]\<rparr>"
  let ?s8 = "\<lparr>actors = [?S Running True, ?F Exited True], errc = None,
      pc = Waiting 0 ?E FromStart, trace = [?I1, Joined 1, ?I0]\<rparr>"
  let ?s9 = "\<lparr>actors = [?S Sent True, ?F Exited True], errc = None,
      pc = Waiting 0 ?E FromStart, trace = [?I1, Joined 1, ?I0]\<rparr>"
  let ?s10 = "\<lparr>actors = [?S Exited True, ?F Exited True], errc = None,
      pc = Waiting 0 ?E FromStart, trace = [?I1, Joined 1, ?I0]\<rparr>"
  let ?s11 = "\<lparr>actors = [?S Exited True, ?F Exited True], errc = None,
      pc = Interrupting 0 ?E FromStart, trace = [?I1, Joined 1, ?I0, Joined 0]\<rparr>"
  let ?s12 = "\<lparr>actors = [?S Exited True, ?F Exited True], errc = None,
      pc = StartReturned ?E, trace = [?I1, Joined 1, ?I0, Joined 0]\<rparr>"
  let ?r0 = "\<lparr>actors = [?S Exited True, ?F Exited True], errc = None,
      pc = RunLoop 0, trace = [?I1, Joined 1, ?I0, Joined 0]\<rparr>"
  let ?r1 = "\<lparr>actors = [?S Exited True, ?F Exited True], errc = None,
      pc = RunLoop 1, trace = [?I1, Joined 1, ?I0, Joined 0]\<rparr>"
  let ?r2 = "\<lparr>actors = [?S Exited True, ?F Exited True], errc = None,
      pc = RunLoop 2, trace = [?I1, Joined 1, ?I0, Joined 0]\<rparr>"
  let ?r3 = "\<lparr>actors = [?S Exited True, ?F Exited True], errc = None,
      pc = RunReturned None, trace = [?I1, Joined 1, ?I0, Joined 0]\<rparr>"
  have 1: "step ?s0 ?s1"
    using step.start_ok [where s = ?s0 and k = "Service None" and ks = "[Fails ?E, Service None]"]
    by simp
  have 2: "step ?s1 ?s2"
    using step.start_ok [where s = ?s1 and k = "Fails ?E" and ks = "[Service None]"] by simp
  have 3: "step ?s2 ?s3"
    using step.finish [where s = ?s2 and i = 1] by simp
  have 4: "step ?s3 ?s4"
    using step.start_err [where s = ?s3 and k = "Service None" and ks = "[]" and e = ?E]
    by (simp add: numeral_2_eq_2)
  have 5: "step ?s4 ?s5"
    using step.int_call [where s = ?s4 and j = 1 and e = ?E and c = FromStart] by simp
  have 6: "step ?s5 ?s6"
    using step.close [where s = ?s5 and i = 1] by simp
  have 7: "step ?s6 ?s7"
    using step.int_wait [where s = ?s6 and j = 1 and e = ?E and c = FromStart] by simp
  have 8: "step ?s7 ?s8"
    using step.int_call [where s = ?s7 and j = 0 and e = ?E and c = FromStart] by simp
  have 9: "step ?s8 ?s9"
    using step.finish [where s = ?s8 and i = 0] by simp
  have 10: "step ?s9 ?s10"
    using step.close [where s = ?s9 and i = 0] by simp
  have 11: "step ?s10 ?s11"
    using step.int_wait [where s = ?s10 and j = 0 and e = ?E and c = FromStart] by simp
  have 12: "step ?s11 ?s12"
    using step.int_ret [where s = ?s11 and e = ?E and c = FromStart] by simp
  note steps.here [of ?s0]
  note steps.further [OF this 1]
  note steps.further [OF this 2]
  note steps.further [OF this 3]
  note steps.further [OF this 4]
  note steps.further [OF this 5]
  note steps.further [OF this 6]
  note steps.further [OF this 7]
  note steps.further [OF this 8]
  note steps.further [OF this 9]
  note steps.further [OF this 10]
  note steps.further [OF this 11]
  note steps.further [OF this 12]
  then have start: "steps (initial [Service None, Fails ?E, Service None]) ?s12"
    by (simp add: initial_def)
  have r1: "step ?r0 ?r1"
    using step.run_done [where s = ?r0 and i = 0] by simp
  have r2: "step ?r1 ?r2"
    using step.run_done [where s = ?r1 and i = 1] by (simp add: numeral_2_eq_2)
  have r3: "step ?r2 ?r3"
    using step.run_last [where s = ?r2] by (simp add: numeral_2_eq_2)
  note steps.here [of ?r0]
  note steps.further [OF this r1]
  note steps.further [OF this r2]
  note steps.further [OF this r3]
  then have run: "steps (call_Run ?s12) ?r3"
    by (simp add: call_Run_def)
  from start run show ?thesis by simp
qed

text \<open>
  C4. Let \<open>Start\<close> be called on a Group \<open>s0\<close> whose \<open>errc\<close> holds the error
  \<open>E\<close>. From then on some goroutine can take a step until \<open>Start\<close> has returned, every
  step lowers the bound \<open>steps_left\<close>, and no actor is added to the Group. When the call
  has returned it has returned \<open>E\<close>, the interrupt functions of all actors started before
  have been invoked in the reverse order of their \<open>Start\<close> calls, each followed by the
  wait for that actor, and all of them have exited.
\<close>

theorem Start_returns_pending_error:
  assumes "steps (initial ks) s0" and "pc s0 = Starting (a # p)" and "errc s0 = Some E"
    and "steps s0 s"
  shows "(\<not> returned s \<longrightarrow> (\<exists>t. step s t)) \<and>
         (\<forall>t. step s t \<longrightarrow> steps_left t < steps_left s) \<and>
         map kind (actors s) = map kind (actors s0) \<and>
         (returned s \<longrightarrow>
            pc s = StartReturned E \<and>
            trace s = interrupts_down (length (actors s0)) 0 E \<and>
            (\<forall>a\<in>set (actors s). phase a = Exited))"
proof -
  from assms(1) have inv0: "group_inv ks s0"
    by (rule group_inv_reachable)
  from assms(4) inv0 have inv: "group_inv ks s"
    by (rule group_inv_steps)
  from assms(2,3) have "start_inv s0 E s0"
    by (simp add: start_inv_def)
  with assms(4) have si: "start_inv s0 E s"
    by (rule start_inv_steps)
  have progress: "\<not> returned s \<longrightarrow> (\<exists>t. step s t)"
    using start_inv_progress [OF inv si] by blast
  have bound: "\<forall>t. step s t \<longrightarrow> steps_left t < steps_left s"
    by (blast intro: step_decreases)
  from si have mk: "map kind (actors s) = map kind (actors s0)"
    by (simp add: start_inv_def)
  then have n: "length (actors s) = length (actors s0)"
    by (metis length_map)
  have ret: "returned s \<longrightarrow>
      pc s = StartReturned E \<and> trace s = interrupts_down (length (actors s0)) 0 E \<and>
      (\<forall>a\<in>set (actors s). phase a = Exited)"
  proof
    assume "returned s"
    with si have pc: "pc s = StartReturned E"
      by (cases "pc s") (simp_all add: start_inv_def)
    with inv n have "trace s = interrupts_down (length (actors s0)) 0 E"
      and "\<forall>i<length (actors s). phase (actors s ! i) = Exited"
      by (simp_all add: group_inv_def Let_def)
    with pc show "pc s = StartReturned E \<and> trace s = interrupts_down (length (actors s0)) 0 E \<and>
      (\<forall>a\<in>set (actors s). phase a = Exited)"
      by (auto simp: in_set_conv_nth)
  qed
  from progress bound mk ret show ?thesis by blast
qed

theorem Start_returns_pending_error_witness:
  "steps (initial [Fails (ErrorString ''interrupt''), Service None])
     \<lparr>actors = [\<lparr>kind = Fails (ErrorString ''interrupt''), phase = Sent, interrupted = False\<rparr>],
      errc = Some (ErrorString ''interrupt''), pc = Starting [Service None], trace = []\<rparr> \<and>
   steps
     \<lparr>actors = [\<lparr>kind = Fails (ErrorString ''interrupt''), phase = Sent, interrupted = False\<rparr>],
      errc = Some (ErrorString ''interrupt''), pc = Starting [Service None], trace = []\<rparr>
     \<lparr>actors = [\<lparr>kind = Fails (ErrorString ''interrupt''), phase = Exited, interrupted = True\<rparr>],
      errc = None, pc = StartReturned (ErrorString ''interrupt''),
      trace = [Interrupt 0 (ErrorString ''interrupt''), Joined 0]\<rparr> \<and>
   interrupts_down 1 0 (ErrorString ''interrupt'') = [Interrupt 0 (ErrorString ''interrupt''), Joined 0]"
proof -
  let ?E = "ErrorString ''interrupt''"
  let ?F = "\<lambda>ph i. \<lparr>kind = Fails ?E, phase = ph, interrupted = i\<rparr>"
  let ?I0 = "Interrupt 0 ?E"
  let ?s1 = "\<lparr>actors = [?F Running False], errc = None, pc = Starting [Service None], trace = []\<rparr>"
  let ?s2 = "\<lparr>actors = [?F Sent False], errc = Some ?E, pc = Starting [Service None], trace = []\<rparr>"
  let ?s3 = "\<lparr>actors = [?F Sent False], errc = None, pc = Interrupting 1 ?E FromStart, trace = []\<rparr>"
  let ?s4 = "\<lparr>actors = [?F Sent True], errc = None, pc = Waiting 0 ?E FromStart, trace = [?I0]\<rparr>"
  let ?s5 = "\<lparr>actors = [?F Exited True], errc = None, pc = Waiting 0 ?E FromStart, trace = [?I0]\<rparr>"
  let ?s6 = "\<lparr>actors = [?F Exited True], errc = None, pc = Interrupting 0 ?E FromStart,
      trace = [?I0, Joined 0]\<rparr>"
  let ?s7 = "\<lparr>actors = [?F Exited True], errc = None, pc = StartReturned ?E, trace = [?I0, Joined 0]\<rparr>"
  let ?s0 = "\<lparr>actors = [], errc = None, pc = Starting [Fails ?E, Service None], trace = []\<rparr>"
  have 1: "step ?s0 ?s1"
    using step.start_ok [where s = ?s0 and k = "Fails ?E" and ks = "[Service None]"] by simp
  have 2: "step ?s1 ?s2"
    using step.finish [where s = ?s1 and i = 0] by simp
  have 3: "step ?s2 ?s3"
    using step.start_err [where s = ?s2 and k = "Service None" and ks = "[]" and e = ?E] by simp
  have 4: "step ?s3 ?s4"
    using step.int_call [where s = ?s3 and j = 0 and e = ?E and c = FromStart] by simp
  have 5: "step ?s4 ?s5"
    using step.close [where s = ?s4 and i = 0] by simp
  have 6: "step ?s5 ?s6"
    using step.int_wait [where s = ?s5 and j = 0 and e = ?E and c = FromStart] by simp
  have 7: "step ?s6 ?s7"
    using step.int_ret [where s = ?s6 and e = ?E and c = FromStart] by simp
  note steps.here [of ?s0]
  note steps.further [OF this 1]
  note steps.further [OF this 2]
  then have before: "steps (initial [Fails ?E, Service None]) ?s2"
    by (simp add: initial_def)
  note steps.here [of ?s2]
  note steps.further [OF this 3]
  note steps.further [OF this 4]
  note steps.further [OF this 5]
  note steps.further [OF this 6]
  note steps.further [OF this 7]
  then have after: "steps ?s2 ?s7" .
  have pc: "pc ?s2 = Starting [Service None]" and ec: "errc ?s2 = Some ?E"
    by simp_all
  from Start_returns_pending_error [OF before pc ec after]
  have "trace ?s7 = interrupts_down (length (actors ?s2)) 0 ?E"
    by simp
  then have "interrupts_down 1 0 ?E = [?I0, Joined 0]"
    by simp
  with before after show ?thesis by simp
qed

end
